theory Spec2Isabelle
  imports Main "HOL-Library.Word" "HOL-Library.Signed_Division"
begin

unbundle bit_operations_syntax

section \<open>Machine types and outcomes\<close>

text \<open>
  The driver is kernel code for an LP64 target: \<^verbatim>\<open>unsigned int\<close>, \<^verbatim>\<open>uid_t\<close>, \<^verbatim>\<open>gid_t\<close> and
  \<^verbatim>\<open>mode_t\<close> are 32-bit words, \<^verbatim>\<open>umode_t\<close> is a 16-bit word, \<^verbatim>\<open>size_t\<close>,
  \<^verbatim>\<open>unsigned long\<close> and \<^verbatim>\<open>off_t\<close> are 64-bit words.  Arithmetic on words wraps, as in C.
  A \<^verbatim>\<open>char\<close> is a \<^typ>\<open>char\<close>, a C string is the list of its characters before the
  terminating NUL.
\<close>

type_synonym u16 = "16 word"
type_synonym u32 = "32 word"
type_synonym u64 = "64 word"

text \<open>
  The C functions below have no error return of their own.  What can stop them is a
  fault of the machine: a division by a zero block size, the dereference of a null
  buffer head, pointer arithmetic on the null result of \<^verbatim>\<open>memchr\<close>, or an access in
  front of an allocation.  A fault is a result of the model, never a returned value of
  the C function.
\<close>

datatype fault =
  DivideByZero | NullPointerDereference | UndefinedPointerArithmetic | OutOfBoundsAccess

datatype errno = EINVAL | ERANGE | ENOMEM

definition NUL :: char where
  "NUL = CHR 0x00"

section \<open>The block device (device.c)\<close>

text \<open>
  A buffer head carries the size the block layer reports and the memory its data pointer
  points to; the memory is a function of the byte index, since \<^verbatim>\<open>memcpy\<close> reads it
  without looking at \<open>b_size\<close>.  A super block carries its block size and the block
  layer's \<^verbatim>\<open>sb_bread\<close>, which yields no buffer head when the fetch fails.
\<close>

record buffer_head =
  b_size :: u64
  b_data :: "nat \<Rightarrow> char"

record super_block =
  s_blocksize :: u64
  sb_bread :: "u64 \<Rightarrow> buffer_head option"

definition memcpy :: "(nat \<Rightarrow> char) \<Rightarrow> nat \<Rightarrow> nat \<Rightarrow> string" where
  "memcpy src off n = map src [off ..< off + n]"

text \<open>
  \<^verbatim>\<open>tarfs_read\<close>: the loop runs while \<open>size > 0\<close>.  The block number is narrowed to
  \<^verbatim>\<open>unsigned int\<close>.  Both \<^verbatim>\<open>pr_err\<close> calls only write to the log: after the first the
  null buffer head is dereferenced, after the second the copy goes on.  The destination
  buffer is the accumulated list of the bytes copied so far.
\<close>

function tarfs_read_loop ::
  "super_block \<Rightarrow> u64 \<Rightarrow> u64 \<Rightarrow> u64 \<Rightarrow> string \<Rightarrow> fault + (u64 \<times> string)" where
  "tarfs_read_loop sb sz offs pos buffer =
     (if sz = 0 then Inr (pos, buffer)
      else if s_blocksize sb = 0 then Inl DivideByZero
      else
        let block = (ucast ((offs + pos) div s_blocksize sb) :: u32);
            inner_off = (offs + pos) mod s_blocksize sb;
            inner_size = min (s_blocksize sb - inner_off) sz
        in case sb_bread sb (ucast block) of
             None \<Rightarrow> Inl NullPointerDereference
           | Some bh \<Rightarrow>
               tarfs_read_loop sb (sz - inner_size) offs (pos + inner_size)
                 (buffer @ memcpy (b_data bh) (unat inner_off) (unat inner_size)))"
  by pat_completeness auto
termination
proof (relation "measure (\<lambda>(sb, sz, offs, pos, buffer). unat sz)", goal_cases)
  case 1
  show ?case by simp
next
  case (2 sb sz offs pos buffer block inner_off inner_size bh)
  have bs: "s_blocksize sb \<noteq> 0" and sz: "sz \<noteq> 0" using 2 by auto
  have "inner_off < s_blocksize sb"
    using 2(4) bs by (simp add: word_mod_less_divisor word_neq_0_conv)
  then have "s_blocksize sb - inner_off \<noteq> 0" by auto
  then have nz: "inner_size \<noteq> 0" using 2(5) sz by (auto simp: min_def)
  have le: "inner_size \<le> sz" using 2(5) by simp
  have "unat (sz - inner_size) = unat sz - unat inner_size"
    using le by (simp add: unat_sub)
  moreover have "0 < unat inner_size" using nz by (simp add: unat_gt_0)
  moreover have "unat inner_size \<le> unat sz" using le by (simp add: word_le_nat_alt)
  ultimately show ?case by simp
qed

declare tarfs_read_loop.simps [simp del]

definition tarfs_read :: "super_block \<Rightarrow> u64 \<Rightarrow> u64 \<Rightarrow> fault + (u64 \<times> string)" where
  "tarfs_read sb sz offs = tarfs_read_loop sb sz offs 0 []"

section \<open>Kernel library routines used by tar.c\<close>

text \<open>
  \<^verbatim>\<open>kstrtouint\<close> as the kernel implements it: an optional leading plus sign, digits below
  the base with the 64-bit overflow check of \<^verbatim>\<open>_parse_integer\<close>, at least one digit, an
  optional newline, then the terminator; the value has to fit 32 bits.  The argument is
  the memory from the pointer to the end of the header, whose end counts as a
  terminator.  The driver calls it with base 8 only, where the radix prefix handling of
  the kernel routine does nothing.
\<close>

definition digit_val :: "char \<Rightarrow> u32 option" where
  "digit_val ch =
     (let c = (of_char ch :: u32); lc = c OR 0x20 in
      if 48 \<le> c \<and> c \<le> 57 then Some (c - 48)
      else if 97 \<le> lc \<and> lc \<le> 102 then Some (lc - 97 + 10)
      else None)"

fun parse_integer :: "string \<Rightarrow> u32 \<Rightarrow> u64 \<Rightarrow> nat \<Rightarrow> bool \<Rightarrow> u64 \<times> nat \<times> bool" where
  "parse_integer [] base res rv ovf = (res, rv, ovf)"
| "parse_integer (c # s) base res rv ovf =
     (case digit_val c of
        None \<Rightarrow> (res, rv, ovf)
      | Some v \<Rightarrow>
          if v \<ge> base then (res, rv, ovf)
          else parse_integer s base (res * ucast base + ucast v) (rv + 1)
                 (ovf \<or> (res AND push_bit 60 (- 1) \<noteq> 0
                          \<and> res > (- 1 - ucast v) div ucast base)))"

definition kstrtoull :: "string \<Rightarrow> u32 \<Rightarrow> errno + u64" where
  "kstrtoull s base =
     (let s1 = (case s of c # r \<Rightarrow> if c = CHR ''+'' then r else s | [] \<Rightarrow> s);
          (res, rv, ovf) = parse_integer s1 base 0 0 False
      in if ovf then Inl ERANGE
         else if rv = 0 then Inl EINVAL
         else
           let s2 = drop rv s1;
               s3 = (case s2 of c # r \<Rightarrow> if c = CHR 0x0A then r else s2 | [] \<Rightarrow> s2)
           in case s3 of
                [] \<Rightarrow> Inr res
              | c # r \<Rightarrow> if c = NUL then Inr res else Inl EINVAL)"

definition kstrtouint :: "string \<Rightarrow> u32 \<Rightarrow> errno + u32" where
  "kstrtouint s base =
     (case kstrtoull s base of
        Inl e \<Rightarrow> Inl e
      | Inr tmp \<Rightarrow> if tmp \<noteq> ucast (ucast tmp :: u32) then Inl ERANGE else Inr (ucast tmp))"

fun strcmp :: "string \<Rightarrow> string \<Rightarrow> int" where
  "strcmp [] [] = 0"
| "strcmp [] (y # ys) = - 1"
| "strcmp (x # xs) [] = 1"
| "strcmp (x # xs) (y # ys) =
     (if x = y then strcmp xs ys else int (of_char x) - int (of_char y))"

fun strrchr :: "string \<Rightarrow> char \<Rightarrow> nat option" where
  "strrchr [] c = None"
| "strrchr (x # xs) c =
     (case strrchr xs c of
        Some i \<Rightarrow> Some (Suc i)
      | None \<Rightarrow> if x = c then Some 0 else None)"

definition memchr :: "string \<Rightarrow> char \<Rightarrow> nat option" where
  "memchr s c = (if c \<in> set s then Some (length (takeWhile (\<lambda>x. x \<noteq> c) s)) else None)"

section \<open>The header record (gnutar.h)\<close>

text \<open>
  Modelled from the spec: the declaration of \<^verbatim>\<open>struct star_header\<close>, the magic
  \<^verbatim>\<open>OLDGNU_MAGIC\<close> and the type flags are in gnutar.h, which is not among the sources.
  The spec describes the record as the classic tar header with fixed-width fields: name,
  mode, uid, gid, size, mtime, a one-byte type flag, link target, magic, prefix, and
  atime and ctime in the extended variant.  The widths and offsets below are those of
  that classic layout (500 bytes in all); the header is the list of the bytes of the
  record, and a field handed to a string routine is the memory from the start of the
  field.
\<close>

type_synonym star_header = string

definition sizeof_star_header :: nat where
  "sizeof_star_header = 500"

definition header_name :: "star_header \<Rightarrow> string" where
  "header_name h = take 100 h"

definition header_mode :: "star_header \<Rightarrow> string" where
  "header_mode h = drop 100 h"

definition header_uid :: "star_header \<Rightarrow> string" where
  "header_uid h = drop 108 h"

definition header_gid :: "star_header \<Rightarrow> string" where
  "header_gid h = drop 116 h"

definition header_size :: "star_header \<Rightarrow> string" where
  "header_size h = drop 124 h"

definition header_typeflag :: "star_header \<Rightarrow> char" where
  "header_typeflag h = (if 156 < length h then h ! 156 else NUL)"

definition header_magic :: "star_header \<Rightarrow> string" where
  "header_magic h = take 6 (drop 257 h)"

definition header_prefix :: "star_header \<Rightarrow> string" where
  "header_prefix h = take 131 (drop 345 h)"

definition OLDGNU_MAGIC :: string where
  "OLDGNU_MAGIC = ''ustar  '' @ [NUL]"

definition REGTYPE :: char where
  "REGTYPE = CHR ''0''"

definition AREGTYPE :: char where
  "AREGTYPE = NUL"

definition SYMTYPE :: char where
  "SYMTYPE = CHR ''2''"

definition CHRTYPE :: char where
  "CHRTYPE = CHR ''3''"

definition BLKTYPE :: char where
  "BLKTYPE = CHR ''4''"

definition DIRTYPE :: char where
  "DIRTYPE = CHR ''5''"

definition FIFOTYPE :: char where
  "FIFOTYPE = CHR ''6''"

text \<open>The file type bits of \<^verbatim>\<open>linux/stat.h\<close>.\<close>

definition S_IFREG :: u32 where
  "S_IFREG = 0x8000"

definition S_IFDIR :: u32 where
  "S_IFDIR = 0x4000"

definition S_IFLNK :: u32 where
  "S_IFLNK = 0xA000"

definition S_IFCHR :: u32 where
  "S_IFCHR = 0x2000"

definition S_IFBLK :: u32 where
  "S_IFBLK = 0x6000"

definition S_IFIFO :: u32 where
  "S_IFIFO = 0x1000"

section \<open>Header decoding and indexing (tar.c)\<close>

definition OCTAL :: u32 where
  "OCTAL = 8"

text \<open>
  \<^verbatim>\<open>ALIGN_SECTOR\<close> is a macro; it is used once on a \<^verbatim>\<open>size_t\<close> and once on an
  \<^verbatim>\<open>off_t\<close>, where \<open>%\<close> is the signed remainder of C.
\<close>

definition ALIGN_SECTOR :: "u64 \<Rightarrow> u64" where
  "ALIGN_SECTOR x = (if x mod 512 > 0 then 512 - x mod 512 else 0)"

definition ALIGN_SECTOR_signed :: "u64 \<Rightarrow> u64" where
  "ALIGN_SECTOR_signed x =
     (if sint x smod 512 > 0 then of_int (512 - sint x smod 512) else 0)"

definition tar_type_to_posix :: "char \<Rightarrow> u32" where
  "tar_type_to_posix typeflag =
     (if typeflag = REGTYPE \<or> typeflag = AREGTYPE then S_IFREG
      else if typeflag = DIRTYPE then S_IFDIR
      else if typeflag = SYMTYPE then S_IFLNK
      else if typeflag = CHRTYPE then S_IFCHR
      else if typeflag = BLKTYPE then S_IFBLK
      else if typeflag = FIFOTYPE then S_IFIFO
      else 0)"

text \<open>
  \<^verbatim>\<open>build_name\<close>: when a field holds no NUL, \<^verbatim>\<open>memchr\<close> yields null and the length is
  computed from a null pointer; when both strings are empty the test reads the byte in
  front of the allocation.  Allocation itself is taken to succeed.
\<close>

definition build_name :: "star_header \<Rightarrow> fault + string" where
  "build_name h =
     (case (memchr (header_prefix h) NUL, memchr (header_name h) NUL) of
        (Some prefix_len, Some name_len) \<Rightarrow>
          let name = take prefix_len (header_prefix h) @ take name_len (header_name h)
          in if prefix_len + name_len = 0 then Inl OutOfBoundsAccess
             else if name ! (prefix_len + name_len - 1) = CHR ''/''
               then Inr (take (prefix_len + name_len - 1) name)
               else Inr name
      | _ \<Rightarrow> Inl UndefinedPointerArithmetic)"

text \<open>
  An entry of the index.  The list of entries stands for the linked list through
  \<open>next\<close>.  The three time stamps are left out: their decoding never returns early and
  no other field depends on it.
\<close>

record tar_entry =
  header :: star_header
  dirname :: string
  basename :: string
  offset :: u32
  data_offset :: u32
  entry_length :: u64
  inode :: u64
  mode :: u16
  uid :: u32
  gid :: u32

definition tar_read_entry :: "super_block \<Rightarrow> u64 \<Rightarrow> fault + tar_entry option" where
  "tar_read_entry sb offs =
     (case tarfs_read sb (of_nat sizeof_star_header) offs of
        Inl f \<Rightarrow> Inl f
      | Inr (n, hdr) \<Rightarrow>
          if n \<noteq> of_nat sizeof_star_header then Inr None
          else if header_magic hdr \<noteq> take 6 OLDGNU_MAGIC then Inr None
          else case kstrtouint (header_size hdr) OCTAL of Inl e \<Rightarrow> Inr None | Inr len \<Rightarrow>
               case kstrtouint (header_mode hdr) OCTAL of Inl e \<Rightarrow> Inr None | Inr md \<Rightarrow>
               case kstrtouint (header_uid hdr) OCTAL of Inl e \<Rightarrow> Inr None | Inr u \<Rightarrow>
               case kstrtouint (header_gid hdr) OCTAL of Inl e \<Rightarrow> Inr None | Inr g \<Rightarrow>
               case build_name hdr of Inl f \<Rightarrow> Inl f | Inr full_name \<Rightarrow>
                 let (dir, base) =
                       (case strrchr full_name (CHR ''/'') of
                          Some i \<Rightarrow> (take i full_name, drop (Suc i) full_name)
                        | None \<Rightarrow> ([], full_name))
                 in Inr (Some \<lparr>header = hdr, dirname = dir, basename = base,
                      offset = ucast offs,
                      data_offset = ucast (offs + of_nat sizeof_star_header
                                      + ALIGN_SECTOR (of_nat sizeof_star_header)),
                      entry_length = ucast len, inode = 0, mode = ucast md,
                      uid = u, gid = g\<rparr>))"

text \<open>
  \<^verbatim>\<open>tar_open\<close>: the loop has no bound of its own, so the model is a partial function
  and \<open>None\<close> stands for a loop that never ends.
\<close>

partial_function (option) tar_open_loop ::
  "super_block \<Rightarrow> tar_entry option \<Rightarrow> u64 \<Rightarrow> (fault + tar_entry list) option" where
  "tar_open_loop sb parent count =
     (case parent of
        None \<Rightarrow> Some (Inr [])
      | Some p \<Rightarrow>
          let p' = p\<lparr>inode := count\<rparr>;
              len = ucast (data_offset p') + entry_length p';
              offs = len + ALIGN_SECTOR_signed len
          in (case tar_read_entry sb offs of
                Inl f \<Rightarrow> Some (Inl f)
              | Inr next \<Rightarrow>
                  Option.bind (tar_open_loop sb next (count + 1))
                    (\<lambda>r. Some (map_sum id (Cons p') r))))"

declare tar_open_loop.simps [code]

definition tar_open :: "super_block \<Rightarrow> (fault + tar_entry list) option" where
  "tar_open sb =
     (case tar_read_entry sb 0 of
        Inl f \<Rightarrow> Some (Inl f)
      | Inr first \<Rightarrow> tar_open_loop sb first 2)"

definition tar_read ::
  "super_block \<Rightarrow> tar_entry \<Rightarrow> u32 \<Rightarrow> u64 \<Rightarrow> fault + (u64 \<times> string)" where
  "tar_read sb entry off len =
     (let to_read = min len (entry_length entry - ucast off)
      in tarfs_read sb to_read (ucast (data_offset entry + off)))"

fun tar_find :: "tar_entry list \<Rightarrow> string \<Rightarrow> string \<Rightarrow> tar_entry option" where
  "tar_find [] dir base = None"
| "tar_find (entry # rest) dir base =
     (if strcmp (basename entry) base = 0 \<and> strcmp (dirname entry) dir = 0
      then Some entry
      else tar_find rest dir base)"

section \<open>The mount glue (driver.c)\<close>

definition ROOT_INO :: u64 where
  "ROOT_INO = 0"

fun tarfs_find_by_inode :: "tar_entry list \<Rightarrow> u64 \<Rightarrow> tar_entry option" where
  "tarfs_find_by_inode [] ino = None"
| "tarfs_find_by_inode (entry # rest) ino =
     (if inode entry = ino then Some entry else tarfs_find_by_inode rest ino)"

text \<open>
  \<^verbatim>\<open>tarfs_fill_sb\<close>: an index without entries is the null pointer, which the function
  reports as a failure.  Whether \<^verbatim>\<open>new_inode\<close> and \<^verbatim>\<open>d_make_root\<close> succeed is for the
  kernel to decide and comes in as two flags.
\<close>

definition tarfs_fill_sb ::
  "super_block \<Rightarrow> bool \<Rightarrow> bool \<Rightarrow> (fault + (errno + unit)) option" where
  "tarfs_fill_sb sb new_inode_ok d_make_root_ok =
     (case tar_open sb of
        None \<Rightarrow> None
      | Some (Inl f) \<Rightarrow> Some (Inl f)
      | Some (Inr entry) \<Rightarrow>
          Some (Inr (if entry = [] then Inl ENOMEM
                     else if \<not> new_inode_ok then Inl ENOMEM
                     else if \<not> d_make_root_ok then Inl ENOMEM
                     else Inr ())))"

section \<open>Notions the statements are phrased in\<close>

text \<open>
  The bytes of the device one at a time: the byte at address \<open>a\<close> lies in the block the
  reader would fetch for it, at \<open>a\<close> modulo the block size.  \<open>read_bytes\<close> collects
  \<open>n\<close> bytes from \<open>a\<close> on and stops at the first fault.
\<close>

definition block_nr :: "super_block \<Rightarrow> nat \<Rightarrow> u64" where
  "block_nr sb a = of_nat ((a div unat (s_blocksize sb)) mod 2 ^ 32)"

fun read_bytes :: "super_block \<Rightarrow> nat \<Rightarrow> nat \<Rightarrow> fault + string" where
  "read_bytes sb a 0 = Inr []"
| "read_bytes sb a (Suc n) =
     (if s_blocksize sb = 0 then Inl DivideByZero
      else case sb_bread sb (block_nr sb a) of
             None \<Rightarrow> Inl NullPointerDereference
           | Some bh \<Rightarrow>
               (case read_bytes sb (Suc a) n of
                  Inl f \<Rightarrow> Inl f
                | Inr r \<Rightarrow> Inr (b_data bh (a mod unat (s_blocksize sb)) # r)))"

text \<open>
  A caller reading a payload in pieces, as \<^verbatim>\<open>tarfs_file_read\<close> does: each piece is read
  at the current position, which then advances by the count returned.
\<close>

fun read_chunks :: "super_block \<Rightarrow> tar_entry \<Rightarrow> nat \<Rightarrow> nat list \<Rightarrow> fault + string" where
  "read_chunks sb entry pos [] = Inr []"
| "read_chunks sb entry pos (c # cs) =
     (case tar_read sb entry (of_nat pos) (of_nat c) of
        Inl f \<Rightarrow> Inl f
      | Inr (n, bytes) \<Rightarrow>
          (case read_chunks sb entry (pos + unat n) cs of
             Inl f \<Rightarrow> Inl f
           | Inr rest \<Rightarrow> Inr (bytes @ rest)))"

text \<open>
  The offset of the header that follows an entry, and an archive that holds \<open>n\<close> headers
  in a row which all decode, starting at a given offset: the decoded entries and the
  offset behind the last of them.
\<close>

definition next_header_offset :: "tar_entry \<Rightarrow> u64" where
  "next_header_offset p =
     (let len = ucast (data_offset p) + entry_length p in len + ALIGN_SECTOR_signed len)"

fun valid_entries_from :: "super_block \<Rightarrow> u64 \<Rightarrow> nat \<Rightarrow> (tar_entry list \<times> u64) option" where
  "valid_entries_from sb offs 0 = Some ([], offs)"
| "valid_entries_from sb offs (Suc n) =
     (case tar_read_entry sb offs of
        Inr (Some e) \<Rightarrow>
          (case valid_entries_from sb (next_header_offset e) n of
             Some (es, offs') \<Rightarrow> Some (e # es, offs')
           | None \<Rightarrow> None)
      | _ \<Rightarrow> None)"

fun assign_inodes :: "u64 \<Rightarrow> tar_entry list \<Rightarrow> tar_entry list" where
  "assign_inodes count [] = []"
| "assign_inodes count (e # es) = e\<lparr>inode := count\<rparr> # assign_inodes (count + 1) es"

text \<open>The C string held by a field, and the path a header spells.\<close>

definition cstr :: "string \<Rightarrow> string" where
  "cstr s = takeWhile (\<lambda>c. c \<noteq> NUL) s"

definition header_path :: "star_header \<Rightarrow> string" where
  "header_path h = cstr (header_prefix h) @ cstr (header_name h)"

section \<open>Sample devices\<close>

text \<open>
  A device made of a list of 512-byte blocks; fetching a block behind the last one fails.
  Headers are written the way GNU tar writes them.
\<close>

definition pad :: "nat \<Rightarrow> string \<Rightarrow> string" where
  "pad n s = s @ replicate (n - length s) NUL"

definition mk_header :: "string \<Rightarrow> string \<Rightarrow> char \<Rightarrow> star_header" where
  "mk_header name sz typeflag =
     pad 100 name @ pad 8 ''0000644'' @ pad 8 ''0001750'' @ pad 8 ''0001750'' @
     pad 12 sz @ pad 12 ''00000000000'' @ pad 8 ''0000000'' @ [typeflag] @
     pad 100 [] @ ''ustar '' @ [CHR '' '', NUL] @ pad 32 ''root'' @ pad 32 ''root'' @
     pad 8 [] @ pad 8 [] @ pad 131 [] @ pad 12 [] @ pad 12 []"

definition block_data :: "string \<Rightarrow> nat \<Rightarrow> char" where
  "block_data blk i = (if i < length blk then blk ! i else NUL)"

definition device :: "string list \<Rightarrow> super_block" where
  "device blocks =
     \<lparr>s_blocksize = 512,
      sb_bread = (\<lambda>b. if unat b < length blocks
                       then Some \<lparr>b_size = 512, b_data = block_data (blocks ! unat b)\<rparr>
                       else None)\<rparr>"

text \<open>
  An archive with a directory, a file, the same path once more, and then a header whose
  size field is not a number.
\<close>

definition hdr_dir_a :: star_header where
  "hdr_dir_a = mk_header ''a/'' ''00000000000'' DIRTYPE"

definition hdr_file_b :: star_header where
  "hdr_file_b = mk_header ''a/b.txt'' ''00000000005'' REGTYPE"

definition hdr_file_b2 :: star_header where
  "hdr_file_b2 = mk_header ''a/b.txt'' ''00000000002'' REGTYPE"

definition hdr_corrupt :: star_header where
  "hdr_corrupt = mk_header ''c'' ''zzz'' REGTYPE"

definition sample_blocks :: "string list" where
  "sample_blocks =
     [pad 512 hdr_dir_a, pad 512 hdr_file_b, pad 512 ''hello'',
      pad 512 hdr_file_b2, pad 512 ''yo'', pad 512 hdr_corrupt]"

definition sample_sb :: super_block where
  "sample_sb = device sample_blocks"

definition entry_dir_a :: tar_entry where
  "entry_dir_a = \<lparr>header = hdr_dir_a, dirname = [], basename = ''a'', offset = 0,
     data_offset = 512, entry_length = 0, inode = 2, mode = 0x1A4, uid = 0x3E8, gid = 0x3E8\<rparr>"

definition entry_file_b :: tar_entry where
  "entry_file_b = \<lparr>header = hdr_file_b, dirname = ''a'', basename = ''b.txt'', offset = 512,
     data_offset = 1024, entry_length = 5, inode = 3, mode = 0x1A4, uid = 0x3E8, gid = 0x3E8\<rparr>"

definition entry_file_b2 :: tar_entry where
  "entry_file_b2 = \<lparr>header = hdr_file_b2, dirname = ''a'', basename = ''b.txt'', offset = 1536,
     data_offset = 2048, entry_length = 2, inode = 4, mode = 0x1A4, uid = 0x3E8, gid = 0x3E8\<rparr>"











text \<open>A header that names a path with a trailing slash but carries the type flag of a file.\<close>

definition hdr_slash_file :: star_header where
  "hdr_slash_file = mk_header ''a/'' ''00000000000'' REGTYPE"

definition slash_sb :: super_block where
  "slash_sb = device [pad 512 hdr_slash_file]"

definition slash_entry :: tar_entry where
  "slash_entry = \<lparr>header = hdr_slash_file, dirname = [], basename = ''a'', offset = 0,
     data_offset = 512, entry_length = 0, inode = 0, mode = 0x1A4, uid = 0x3E8, gid = 0x3E8\<rparr>"

text \<open>A device of zero blocks only, one whose blocks come back with the wrong size, and
  one whose fetches all fail.\<close>

definition zero_sb :: super_block where
  "zero_sb = \<lparr>s_blocksize = 512,
     sb_bread = (\<lambda>b. Some \<lparr>b_size = 512, b_data = (\<lambda>i. NUL)\<rparr>)\<rparr>"

definition wrong_size_sb :: super_block where
  "wrong_size_sb = \<lparr>s_blocksize = 512,
     sb_bread = (\<lambda>b. Some \<lparr>b_size = 1024, b_data = (\<lambda>i. CHR ''A'')\<rparr>)\<rparr>"

definition failing_sb :: super_block where
  "failing_sb = \<lparr>s_blocksize = 512, sb_bread = (\<lambda>b. None)\<rparr>"

text \<open>
  A device whose block 0 holds the letter A and every other block the letter B, and an
  entry whose payload starts 512 bytes below the 4 GiB mark and is 514 bytes long.
\<close>

definition ab_sb :: super_block where
  "ab_sb = \<lparr>s_blocksize = 512,
     sb_bread = (\<lambda>b. Some \<lparr>b_size = 512,
                   b_data = (\<lambda>i. if b = 0 then CHR ''A'' else CHR ''B'')\<rparr>)\<rparr>"

definition high_entry :: tar_entry where
  "high_entry = \<lparr>header = [], dirname = [], basename = ''big'', offset = 0xFFFFFC00,
     data_offset = 0xFFFFFE00, entry_length = 514, inode = 3, mode = 0x1A4, uid = 0, gid = 0\<rparr>"

section \<open>The block reader\<close>

lemma tarfs_read_loop_0 [simp]: "tarfs_read_loop sb 0 offs pos buf = Inr (pos, buf)"
  by (subst tarfs_read_loop.simps) simp

lemma tarfs_read_loop_div0:
  "sz \<noteq> 0 \<Longrightarrow> s_blocksize sb = 0 \<Longrightarrow> tarfs_read_loop sb sz offs pos buf = Inl DivideByZero"
  by (subst tarfs_read_loop.simps) simp

lemma unat_of_nat64: "a < 2 ^ 64 \<Longrightarrow> unat (of_nat a :: u64) = a"
  by (simp add: unat_of_nat)

lemma tarfs_read_loop_count:
  "tarfs_read_loop sb sz offs pos buf = Inr (n, out) \<Longrightarrow> n = pos + sz \<and> length out = length buf + unat sz"
proof (induction sb sz offs pos buf rule: tarfs_read_loop.induct)
  case (1 sb sz offs pos buf)
  show ?case
  proof (cases "sz = 0")
    case True
    with "1.prems" show ?thesis by simp
  next
    case False
    show ?thesis
    proof (cases "s_blocksize sb = 0")
      case True
      with False "1.prems" show ?thesis by (simp add: tarfs_read_loop_div0)
    next
      case bs: False
      define inner_off where "inner_off = (offs + pos) mod s_blocksize sb"
      define inner_size where "inner_size = min (s_blocksize sb - inner_off) sz"
      define block where "block = (ucast ((offs + pos) div s_blocksize sb) :: u32)"
      obtain bh where bh: "sb_bread sb (ucast block) = Some bh"
        using "1.prems" False bs
        by (cases "sb_bread sb (ucast block)")
           (simp_all add: tarfs_read_loop.simps[of sb sz] block_def Let_def)
      have step: "tarfs_read_loop sb sz offs pos buf =
          tarfs_read_loop sb (sz - inner_size) offs (pos + inner_size)
            (buf @ memcpy (b_data bh) (unat inner_off) (unat inner_size))"
        using False bs bh
        by (subst tarfs_read_loop.simps) (simp add: Let_def block_def inner_off_def inner_size_def)
      have le: "inner_size \<le> sz" by (simp add: inner_size_def)
      have IH: "n = (pos + inner_size) + (sz - inner_size) \<and>
          length out = length (buf @ memcpy (b_data bh) (unat inner_off) (unat inner_size))
             + unat (sz - inner_size)"
        by (rule "1.IH"[OF False bs block_def inner_off_def inner_size_def bh])
           (use "1.prems" step in simp)
      have "unat (sz - inner_size) = unat sz - unat inner_size"
        using le by (simp add: unat_sub)
      moreover have "unat inner_size \<le> unat sz" using le by (simp add: word_le_nat_alt)
      ultimately show ?thesis using IH by (simp add: memcpy_def)
    qed
  qed
qed

lemma read_bytes_append:
  "read_bytes sb a (n + m) =
     (case read_bytes sb a n of
        Inl f \<Rightarrow> Inl f
      | Inr r1 \<Rightarrow> (case read_bytes sb (a + n) m of Inl f \<Rightarrow> Inl f | Inr r2 \<Rightarrow> Inr (r1 @ r2)))"
  by (induction n arbitrary: a) (auto split: sum.splits option.splits)

lemma memcpy_Suc: "memcpy src off (Suc n) = src off # memcpy src (Suc off) n"
  by (simp add: memcpy_def upt_rec)

lemma memcpy_0: "memcpy src off 0 = []"
  by (simp add: memcpy_def)

lemma read_bytes_in_block:
  assumes bs: "s_blocksize sb \<noteq> 0"
    and fit: "a mod unat (s_blocksize sb) + n \<le> unat (s_blocksize sb)"
    and bh: "sb_bread sb (block_nr sb a) = Some bh"
  shows "read_bytes sb a n = Inr (memcpy (b_data bh) (a mod unat (s_blocksize sb)) n)"
  using fit bh
proof (induction n arbitrary: a)
  case 0
  then show ?case by (simp add: memcpy_0)
next
  case (Suc n)
  let ?B = "unat (s_blocksize sb)"
  have lt: "Suc (a mod ?B) < ?B \<or> n = 0" using Suc.prems(1) by auto
  show ?case
  proof (cases "n = 0")
    case True
    then show ?thesis using Suc.prems bs by (simp add: memcpy_Suc memcpy_0)
  next
    case False
    then have lt': "Suc (a mod ?B) < ?B" using lt by simp
    have m: "Suc a mod ?B = Suc (a mod ?B)"
      using lt' by (simp add: mod_Suc)
    have d: "Suc a div ?B = a div ?B"
      using lt' by (simp add: div_Suc mod_Suc split: if_splits)
    have "read_bytes sb (Suc a) n = Inr (memcpy (b_data bh) (Suc a mod ?B) n)"
      by (rule Suc.IH) (use Suc.prems m d in \<open>simp_all add: block_nr_def\<close>)
    then show ?thesis using Suc.prems bs m by (simp add: memcpy_Suc)
  qed
qed

lemma read_bytes_null:
  "s_blocksize sb \<noteq> 0 \<Longrightarrow> sb_bread sb (block_nr sb a) = None \<Longrightarrow> 0 < n \<Longrightarrow>
   read_bytes sb a n = Inl NullPointerDereference"
  by (cases n) simp_all

lemma read_bytes_div0:
  "s_blocksize sb = 0 \<Longrightarrow> 0 < n \<Longrightarrow> read_bytes sb a n = Inl DivideByZero"
  by (cases n) simp_all

lemma block_nr_code:
  "ucast (ucast ((x :: u64) div s_blocksize sb) :: u32) = block_nr sb (unat x)"
proof -
  let ?y = "x div s_blocksize sb"
  have "(ucast (ucast ?y :: u32) :: u64) = of_nat (unat (ucast ?y :: u32))"
    by simp
  also have "unat (ucast ?y :: u32) = unat ?y mod 2 ^ 32"
    by (simp add: unsigned_ucast_eq take_bit_eq_mod)
  also have "unat ?y = unat x div unat (s_blocksize sb)"
    by (simp add: unat_div)
  finally show ?thesis by (simp add: block_nr_def)
qed

lemma tarfs_read_loop_eq:
  "unat offs + unat pos + unat sz < 2 ^ 64 \<Longrightarrow>
   tarfs_read_loop sb sz offs pos buf =
     (case read_bytes sb (unat offs + unat pos) (unat sz) of
        Inl f \<Rightarrow> Inl f
      | Inr r \<Rightarrow> Inr (pos + sz, buf @ r))"
proof (induction sb sz offs pos buf rule: tarfs_read_loop.induct)
  case (1 sb sz offs pos buf)
  show ?case
  proof (cases "sz = 0")
    case True
    then show ?thesis by simp
  next
    case False
    then have pos_sz: "0 < unat sz" by (simp add: unat_gt_0)
    show ?thesis
    proof (cases "s_blocksize sb = 0")
      case True
      with False pos_sz show ?thesis by (simp add: read_bytes_div0 tarfs_read_loop_div0)
    next
      case bs: False
      let ?B = "unat (s_blocksize sb)"
      let ?a = "unat offs + unat pos"
      define inner_off where "inner_off = (offs + pos) mod s_blocksize sb"
      define inner_size where "inner_size = min (s_blocksize sb - inner_off) sz"
      define block where "block = (ucast ((offs + pos) div s_blocksize sb) :: u32)"
      have Bpos: "0 < ?B" using bs by (simp add: unat_gt_0)
      have a: "unat (offs + pos) = ?a"
        using "1.prems" by (simp add: unat_add_lem[THEN iffD1])
      have io: "unat inner_off = ?a mod ?B"
        by (simp add: inner_off_def unat_mod a)
      have io_lt: "unat inner_off < ?B" using Bpos by (simp add: io)
      have io_le: "inner_off \<le> s_blocksize sb"
        using io_lt by (simp add: word_le_nat_alt)
      have isz: "unat inner_size = min (?B - ?a mod ?B) (unat sz)"
        using io_le io by (simp add: inner_size_def min_def word_le_nat_alt unat_sub)
      have isz_pos: "0 < unat inner_size" using isz io io_lt pos_sz by simp
      have le: "inner_size \<le> sz" by (simp add: inner_size_def)
      have ule: "unat inner_size \<le> unat sz" using le by (simp add: word_le_nat_alt)
      have rest: "unat (sz - inner_size) = unat sz - unat inner_size"
        using le by (simp add: unat_sub)
      have pos': "unat (pos + inner_size) = unat pos + unat inner_size"
        using "1.prems" ule by (simp add: unat_add_lem[THEN iffD1])
      have blk: "ucast block = block_nr sb ?a"
        using block_nr_code[of "offs + pos" sb] by (simp add: block_def a)
      have split: "read_bytes sb ?a (unat sz) =
          (case read_bytes sb ?a (unat inner_size) of
             Inl f \<Rightarrow> Inl f
           | Inr r1 \<Rightarrow> (case read_bytes sb (?a + unat inner_size) (unat sz - unat inner_size) of
                         Inl f \<Rightarrow> Inl f | Inr r2 \<Rightarrow> Inr (r1 @ r2)))"
        using read_bytes_append[of sb ?a "unat inner_size" "unat sz - unat inner_size"] ule
        by simp
      show ?thesis
      proof (cases "sb_bread sb (ucast block)")
        case None
        have "tarfs_read_loop sb sz offs pos buf = Inl NullPointerDereference"
          using False bs None
          by (subst tarfs_read_loop.simps) (simp add: Let_def block_def)
        moreover have "read_bytes sb ?a (unat sz) = Inl NullPointerDereference"
          using None blk bs pos_sz by (simp add: read_bytes_null)
        ultimately show ?thesis by simp
      next
        case (Some bh)
        have step: "tarfs_read_loop sb sz offs pos buf =
            tarfs_read_loop sb (sz - inner_size) offs (pos + inner_size)
              (buf @ memcpy (b_data bh) (unat inner_off) (unat inner_size))"
          using False bs Some
          by (subst tarfs_read_loop.simps)
             (simp add: Let_def block_def inner_off_def inner_size_def)
        have IH: "tarfs_read_loop sb (sz - inner_size) offs (pos + inner_size)
              (buf @ memcpy (b_data bh) (unat inner_off) (unat inner_size)) =
            (case read_bytes sb (unat offs + unat (pos + inner_size)) (unat (sz - inner_size)) of
               Inl f \<Rightarrow> Inl f
             | Inr r \<Rightarrow> Inr (pos + inner_size + (sz - inner_size),
                  (buf @ memcpy (b_data bh) (unat inner_off) (unat inner_size)) @ r))"
          by (rule "1.IH"[OF False bs block_def inner_off_def inner_size_def Some])
             (use "1.prems" rest pos' ule in simp)
        have first: "read_bytes sb ?a (unat inner_size) =
            Inr (memcpy (b_data bh) (?a mod ?B) (unat inner_size))"
        proof (rule read_bytes_in_block[OF bs])
          have "?a mod ?B < ?B" using Bpos by simp
          then show "?a mod ?B + unat inner_size \<le> ?B" unfolding isz by linarith
          show "sb_bread sb (block_nr sb ?a) = Some bh" using Some blk by simp
        qed
        show ?thesis
          unfolding step IH split first
          by (simp add: rest pos' io add.assoc split: sum.splits)
      qed
    qed
  qed
qed

lemma tarfs_read_eq:
  "unat offs + unat sz < 2 ^ 64 \<Longrightarrow>
   tarfs_read sb sz offs =
     (case read_bytes sb (unat offs) (unat sz) of
        Inl f \<Rightarrow> Inl f
      | Inr r \<Rightarrow> Inr (sz, r))"
  using tarfs_read_loop_eq[of offs 0 sz sb "[]"]
  by (simp add: tarfs_read_def split: sum.splits)

lemma tarfs_read_loop_total:
  "s_blocksize sb \<noteq> 0 \<Longrightarrow> \<forall>b. sb_bread sb b \<noteq> None \<Longrightarrow>
   \<exists>r. tarfs_read_loop sb sz offs pos buf = Inr r"
proof (induction sb sz offs pos buf rule: tarfs_read_loop.induct)
  case (1 sb sz offs pos buf)
  show ?case
  proof (cases "sz = 0")
    case True
    then show ?thesis by simp
  next
    case False
    define inner_off where "inner_off = (offs + pos) mod s_blocksize sb"
    define inner_size where "inner_size = min (s_blocksize sb - inner_off) sz"
    define block where "block = (ucast ((offs + pos) div s_blocksize sb) :: u32)"
    have "sb_bread sb (ucast block) \<noteq> None"
      using "1.prems"(2) by blast
    then obtain bh where bh: "sb_bread sb (ucast block) = Some bh"
      by (cases "sb_bread sb (ucast block)") auto
    have step: "tarfs_read_loop sb sz offs pos buf =
        tarfs_read_loop sb (sz - inner_size) offs (pos + inner_size)
          (buf @ memcpy (b_data bh) (unat inner_off) (unat inner_size))"
      using False "1.prems"(1) bh
      by (subst tarfs_read_loop.simps)
         (simp add: Let_def block_def inner_off_def inner_size_def)
    show ?thesis
      unfolding step
      by (rule "1.IH"[OF False "1.prems"(1) block_def inner_off_def inner_size_def bh
            "1.prems"(1) "1.prems"(2)])
  qed
qed

lemma memcpy_const: "memcpy (\<lambda>i. c) off n = replicate n c"
  by (simp add: memcpy_def map_replicate_const)

lemma memcpy_block_data:
  "off + n \<le> length blk \<Longrightarrow> memcpy (block_data blk) off n = take n (drop off blk)"
  by (rule nth_equalityI) (simp_all add: memcpy_def block_data_def)

lemma device_read:
  assumes b: "b < length blocks" and fit: "off + n \<le> 512"
    and len: "length (blocks ! b) = 512" and small: "b < 2 ^ 32"
  shows "tarfs_read (device blocks) (of_nat n) (of_nat (512 * b + off)) =
           Inr (of_nat n, take n (drop off (blocks ! b)))"
proof -
  let ?sb = "device blocks"
  let ?a = "512 * b + off"
  have bs: "s_blocksize ?sb \<noteq> 0" and B: "unat (s_blocksize ?sb) = 512"
    by (simp_all add: device_def)
  have a: "unat (of_nat ?a :: u64) = ?a" and n: "unat (of_nat n :: u64) = n"
    using small fit by (simp_all add: unat_of_nat64 del: of_nat_add of_nat_mult)
  show ?thesis
  proof (cases "n = 0")
    case True
    then show ?thesis by (simp add: tarfs_read_def)
  next
    case False
    then have m': "?a mod 512 = off" and d': "?a div 512 = b" using fit by auto
    have blk: "block_nr ?sb ?a = of_nat b"
      using small by (simp add: block_nr_def B d')
    have ub: "unat (of_nat b :: u64) = b"
      using small by (simp add: unat_of_nat64)
    have bh: "sb_bread ?sb (block_nr ?sb ?a) =
        Some \<lparr>b_size = 512, b_data = block_data (blocks ! b)\<rparr>"
    proof -
      have "sb_bread ?sb x =
          (if unat x < length blocks
           then Some \<lparr>b_size = 512, b_data = block_data (blocks ! unat x)\<rparr> else None)" for x
        by (simp add: device_def)
      then show ?thesis unfolding blk using b ub by simp
    qed
    have offlt: "off < 512" using False fit by simp
    have "read_bytes ?sb ?a n = Inr (memcpy (block_data (blocks ! b)) off n)"
      using read_bytes_in_block[OF bs _ bh, of n] fit offlt by (simp add: B)
    then have "read_bytes ?sb ?a n = Inr (take n (drop off (blocks ! b)))"
      using fit len by (simp add: memcpy_block_data)
    moreover have "unat (of_nat ?a :: u64) + unat (of_nat n :: u64) < 2 ^ 64"
      unfolding a n using small fit by simp
    ultimately show ?thesis
      unfolding tarfs_read_eq[OF \<open>unat (of_nat ?a :: u64) + unat (of_nat n :: u64) < 2 ^ 64\<close>] a n
      by simp
  qed
qed

section \<open>Reading the sample devices\<close>

lemma length_pad: "length s \<le> n \<Longrightarrow> length (pad n s) = n"
  by (simp add: pad_def)

lemma length_mk_header:
  "length name \<le> 100 \<Longrightarrow> length sz \<le> 12 \<Longrightarrow> length (mk_header name sz t) = 500"
  by (simp add: mk_header_def pad_def)

lemma sample_blocks_length: "b < 6 \<Longrightarrow> length (sample_blocks ! b) = 512"
proof -
  assume "b < 6"
  then consider "b = 0" | "b = 1" | "b = 2" | "b = 3" | "b = 4" | "b = 5" by linarith
  then show ?thesis
    by cases
       (simp_all add: sample_blocks_def length_pad length_mk_header hdr_dir_a_def
          hdr_file_b_def hdr_file_b2_def hdr_corrupt_def)
qed

lemma sample_read:
  "b < 6 \<Longrightarrow> off + n \<le> 512 \<Longrightarrow>
   tarfs_read sample_sb (of_nat n) (of_nat (512 * b + off)) =
     Inr (of_nat n, take n (drop off (sample_blocks ! b)))"
  unfolding sample_sb_def
  by (rule device_read) (simp_all add: sample_blocks_length, simp add: sample_blocks_def)

section \<open>The block reader: claims C10 and C6\<close>

text \<open>
  C10.  Whenever \<^verbatim>\<open>tarfs_read\<close> returns, the count it returns is the size that was
  asked for, and as many bytes were copied: there is no short read, and the return value
  tells nothing about the fetches.  It does return when the block size is not zero and
  every fetch yields a buffer head, whatever size the buffer head reports.
\<close>

theorem tarfs_read_returns_requested_size:
  "(\<forall>n out. tarfs_read sb sz offs = Inr (n, out) \<longrightarrow> n = sz \<and> length out = unat sz) \<and>
   (s_blocksize sb \<noteq> 0 \<and> (\<forall>b. sb_bread sb b \<noteq> None) \<longrightarrow>
      (\<exists>out. tarfs_read sb sz offs = Inr (sz, out)))"
proof -
  have count: "n = sz \<and> length out = unat sz" if "tarfs_read sb sz offs = Inr (n, out)" for n out
    using that tarfs_read_loop_count[of sb sz offs 0 "[]" n out] by (simp add: tarfs_read_def)
  have total: "\<exists>out. tarfs_read sb sz offs = Inr (sz, out)"
    if "s_blocksize sb \<noteq> 0 \<and> (\<forall>b. sb_bread sb b \<noteq> None)"
  proof -
    from that have a: "s_blocksize sb \<noteq> 0" and b: "\<forall>b. sb_bread sb b \<noteq> None"
      by blast+
    obtain r where r: "tarfs_read sb sz offs = Inr r"
      using tarfs_read_loop_total[OF a b, of sz offs 0 "[]"] unfolding tarfs_read_def by blast
    obtain n out where "r = (n, out)" by (cases r)
    with r have *: "tarfs_read sb sz offs = Inr (n, out)" by simp
    then have "n = sz" using count by blast
    with * show ?thesis by auto
  qed
  show ?thesis using count total by blast
qed

theorem tarfs_read_returns_requested_size_witness:
  "s_blocksize wrong_size_sb \<noteq> 0 \<and> sb_bread wrong_size_sb 7 \<noteq> None \<and>
   (\<exists>out. tarfs_read wrong_size_sb 4 510 = Inr (4, out))"
  using tarfs_read_returns_requested_size[of wrong_size_sb 4 510]
  by (simp add: wrong_size_sb_def)

text \<open>
  C6.  The claim asks for an I/O error when a fetch fails or a block has the wrong size.
  The code logs both and goes on: with blocks of 1024 bytes on a device of block size 512
  the read returns the full count, and with a fetch that fails it dereferences the null
  buffer head.  Neither outcome is an error returned to the caller.
\<close>

theorem tarfs_read_hides_block_errors:
  "s_blocksize wrong_size_sb = 512 \<and>
   map_option b_size (sb_bread wrong_size_sb 0) = Some 1024 \<and>
   tarfs_read wrong_size_sb 4 0 = Inr (4, ''AAAA'') \<and>
   sb_bread failing_sb 0 = None \<and>
   tarfs_read failing_sb 4 0 = Inl NullPointerDereference"
proof -
  have "replicate 4 (CHR ''A'') = ''AAAA''"
    by (simp add: eval_nat_numeral)
  then show ?thesis
    by (simp add: tarfs_read_def tarfs_read_loop.simps wrong_size_sb_def failing_sb_def
          memcpy_const)
qed

section \<open>The indexing loop\<close>

lemma tar_open_loop_None: "tar_open_loop sb None c = Some (Inr [])"
  by (subst tar_open_loop.simps) simp

lemma tar_open_loop_Some:
  "tar_open_loop sb (Some p) c =
     (case tar_read_entry sb (next_header_offset p) of
        Inl f \<Rightarrow> Some (Inl f)
      | Inr nxt \<Rightarrow>
          Option.bind (tar_open_loop sb nxt (c + 1))
            (\<lambda>r. Some (map_sum id (Cons (p\<lparr>inode := c\<rparr>)) r)))"
  by (subst tar_open_loop.simps) (simp add: Let_def next_header_offset_def)

lemma tar_open_loop_Some_Inr:
  assumes "tar_open_loop sb (Some p) c = Some (Inr es)"
  obtains nxt es' where "tar_read_entry sb (next_header_offset p) = Inr nxt"
    and "tar_open_loop sb nxt (c + 1) = Some (Inr es')"
    and "es = p\<lparr>inode := c\<rparr> # es'"
  using assms unfolding tar_open_loop_Some
  by (auto split: sum.splits Option.bind_splits simp: map_sum_def)

lemma tar_open_loop_step:
  "tar_read_entry sb (next_header_offset p) = Inr nxt \<Longrightarrow>
   tar_open_loop sb nxt (c + 1) = Some (Inr es) \<Longrightarrow>
   tar_open_loop sb (Some p) c = Some (Inr (p\<lparr>inode := c\<rparr> # es))"
  by (simp add: tar_open_loop_Some)

lemma tar_open_loop_cases:
  assumes "tar_open_loop sb par c = Some (Inr es)"
  shows "(par = None \<and> es = []) \<or>
         (\<exists>p nxt es'. par = Some p \<and> tar_read_entry sb (next_header_offset p) = Inr nxt \<and>
            tar_open_loop sb nxt (c + 1) = Some (Inr es') \<and> es = p\<lparr>inode := c\<rparr> # es')"
proof (cases par)
  case None
  with assms show ?thesis by (simp add: tar_open_loop_None)
next
  case (Some p)
  with assms show ?thesis by (auto elim: tar_open_loop_Some_Inr)
qed

lemma tar_open_loop_inodes:
  "tar_open_loop sb par c = Some (Inr es) \<Longrightarrow> i < length es \<Longrightarrow>
   inode (es ! i) = c + of_nat i"
proof (induction es arbitrary: par c i)
  case Nil
  then show ?case by simp
next
  case (Cons e es)
  from tar_open_loop_cases[OF Cons.prems(1)] obtain p nxt where
    e: "e = p\<lparr>inode := c\<rparr>" and rest: "tar_open_loop sb nxt (c + 1) = Some (Inr es)"
    by auto
  show ?case
  proof (cases i)
    case 0
    then show ?thesis using e by simp
  next
    case (Suc k)
    then have "k < length es" using Cons.prems(2) by simp
    from Cons.IH[OF rest this] show ?thesis using Suc by (simp add: add.assoc)
  qed
qed

lemma tar_open_loop_length_indep:
  "tar_open_loop sb par c = Some (Inr es) \<Longrightarrow>
   \<exists>es'. tar_open_loop sb par c' = Some (Inr es') \<and> length es' = length es"
proof (induction es arbitrary: par c c')
  case Nil
  with tar_open_loop_cases[OF Nil.prems] show ?case by (auto simp: tar_open_loop_None)
next
  case (Cons e es)
  from tar_open_loop_cases[OF Cons.prems] obtain p nxt where
    par: "par = Some p" and nx: "tar_read_entry sb (next_header_offset p) = Inr nxt"
    and rest: "tar_open_loop sb nxt (c + 1) = Some (Inr es)"
    by auto
  from Cons.IH[OF rest, of "c' + 1"] obtain es' where
    "tar_open_loop sb nxt (c' + 1) = Some (Inr es')" "length es' = length es" by auto
  then show ?case using par nx by (auto simp: tar_open_loop_step)
qed

lemma valid_entries_open_loop:
  "valid_entries_from sb offs n = Some (es, offs') \<Longrightarrow> tar_read_entry sb offs' = Inr None \<Longrightarrow>
   \<exists>par. tar_read_entry sb offs = Inr par \<and>
         tar_open_loop sb par c = Some (Inr (assign_inodes c es))"
proof (induction n arbitrary: offs es c)
  case 0
  then show ?case by (simp add: tar_open_loop_None)
next
  case (Suc n)
  from Suc.prems(1) obtain e es' where
    e: "tar_read_entry sb offs = Inr (Some e)"
    and rest: "valid_entries_from sb (next_header_offset e) n = Some (es', offs')"
    and es: "es = e # es'"
    by (auto split: sum.splits option.splits)
  from Suc.IH[OF rest Suc.prems(2), of "c + 1"] obtain par where
    "tar_read_entry sb (next_header_offset e) = Inr par"
    "tar_open_loop sb par (c + 1) = Some (Inr (assign_inodes (c + 1) es'))" by auto
  then show ?case using e es by (simp add: tar_open_loop_step)
qed

lemma tar_read_entry_SomeD:
  assumes "tar_read_entry sb offs = Inr (Some e)"
  shows "\<exists>n hdr len md u g full_name.
     tarfs_read sb (of_nat sizeof_star_header) offs = Inr (n, hdr) \<and>
     header_magic hdr = take 6 OLDGNU_MAGIC \<and>
     kstrtouint (header_size hdr) OCTAL = Inr len \<and>
     kstrtouint (header_mode hdr) OCTAL = Inr md \<and>
     kstrtouint (header_uid hdr) OCTAL = Inr u \<and>
     kstrtouint (header_gid hdr) OCTAL = Inr g \<and>
     build_name hdr = Inr full_name \<and>
     header e = hdr \<and>
     dirname e = (case strrchr full_name (CHR ''/'') of Some i \<Rightarrow> take i full_name | None \<Rightarrow> []) \<and>
     basename e = (case strrchr full_name (CHR ''/'') of Some i \<Rightarrow> drop (Suc i) full_name
                   | None \<Rightarrow> full_name) \<and>
     offset e = ucast offs \<and>
     data_offset e = ucast (offs + of_nat sizeof_star_header
                        + ALIGN_SECTOR (of_nat sizeof_star_header)) \<and>
     entry_length e = ucast len \<and> inode e = 0 \<and> mode e = ucast md \<and> uid e = u \<and> gid e = g"
  using assms unfolding tar_read_entry_def
  by (auto split: sum.splits if_splits prod.splits option.splits)

lemma unat_u32_lt: "unat (w :: u32) < 2 ^ 32"
proof -
  have "uint w < 2 ^ 32" using uint_lt2p[of w] by simp
  then show ?thesis by (simp add: unat_eq_nat_uint nat_less_iff del: nat_uint_eq)
qed

lemma unat_ucast_u32: "unat (ucast (w :: u32) :: u64) = unat w"
proof -
  have "unat w < 2 ^ 64" using unat_u32_lt[of w] by simp
  then show ?thesis by (simp add: unsigned_ucast_eq take_bit_eq_mod)
qed

lemma tar_read_entry_length_bound:
  "tar_read_entry sb offs = Inr (Some e) \<Longrightarrow> unat (entry_length e) < 2 ^ 32"
proof -
  assume "tar_read_entry sb offs = Inr (Some e)"
  from tar_read_entry_SomeD[OF this] obtain len :: u32 where "entry_length e = ucast len"
    by auto
  then show ?thesis using unat_u32_lt[of len] by (simp add: unat_ucast_u32)
qed

lemma sint_small:
  assumes "unat (x :: u64) < 2 ^ 63"
  shows "sint x = int (unat x)"
proof -
  have "uint x < 2 ^ 63" using assms by (simp add: unat_eq_nat_uint nat_less_iff del: nat_uint_eq)
  moreover have "0 \<le> uint x" by simp
  moreover have "- (2 ^ 63) \<le> uint x"
    by (rule order_trans[of _ 0]) simp_all
  ultimately have "signed_take_bit 63 (uint x) = uint x"
    by (intro signed_take_bit_int_eq_self) simp_all
  then show ?thesis by (simp add: sint_uint)
qed

lemma smod_nonneg: "0 \<le> (k :: int) \<Longrightarrow> k smod 512 = k mod 512"
  by (cases "k = 0") (simp_all add: signed_modulo_int_def)

lemma ALIGN_SECTOR_signed_small:
  assumes "unat x < 2 ^ 63"
  shows "unat (ALIGN_SECTOR_signed x) = (if unat x mod 512 > 0 then 512 - unat x mod 512 else 0)"
proof -
  have s: "sint x smod 512 = int (unat x mod 512)"
    using sint_small[OF assms] by (simp add: smod_nonneg zmod_int)
  show ?thesis
  proof (cases "unat x mod 512 > 0")
    case True
    have "(512 :: int) - int (unat x mod 512) = int (512 - unat x mod 512)"
      by (simp add: of_nat_diff)
    then have "ALIGN_SECTOR_signed x = of_nat (512 - unat x mod 512)"
      using True s by (simp add: ALIGN_SECTOR_signed_def)
    moreover have "512 - unat x mod 512 < (2 :: nat) ^ 64" by simp
    ultimately show ?thesis using True by (simp add: unat_of_nat64 del: of_nat_diff)
  next
    case False
    then show ?thesis using s by (simp add: ALIGN_SECTOR_signed_def)
  qed
qed

lemma ALIGN_SECTOR_signed_bound:
  assumes "unat x < 2 ^ 63"
  shows "unat (ALIGN_SECTOR_signed x) < 512"
  by (simp add: ALIGN_SECTOR_signed_small[OF assms])

lemma next_header_offset_bound:
  assumes "unat (entry_length p) < 2 ^ 32"
  shows "unat (next_header_offset p) < 2 ^ 33 + 512"
proof -
  define len where "len = (ucast (data_offset p) :: u64) + entry_length p"
  have d: "unat (ucast (data_offset p) :: u64) < 2 ^ 32"
    using unat_u32_lt[of "data_offset p"] by (simp add: unat_ucast_u32)
  have "unat len \<le> unat (ucast (data_offset p) :: u64) + unat (entry_length p)"
    unfolding len_def by (simp add: unat_word_ariths)
  then have l: "unat len < 2 ^ 33" using d assms by simp
  then have "unat (ALIGN_SECTOR_signed len) < 512"
    by (intro ALIGN_SECTOR_signed_bound) simp
  moreover have "unat (len + ALIGN_SECTOR_signed len) \<le> unat len + unat (ALIGN_SECTOR_signed len)"
    by (simp add: unat_word_ariths)
  ultimately show ?thesis
    using l by (simp add: next_header_offset_def Let_def len_def)
qed

lemma run_lengths:
  assumes "tar_read_entry sb offs = Inr par" "tar_open_loop sb par c = Some (Inr es)"
    "m \<le> length es"
  shows "\<exists>x par' c' es'. (x = offs \<or> unat x < 2 ^ 33 + 512) \<and>
           tar_read_entry sb x = Inr par' \<and>
           tar_open_loop sb par' c' = Some (Inr es') \<and> length es' = m"
  using assms
proof (induction es arbitrary: offs par c)
  case Nil
  then show ?case by auto
next
  case (Cons e es)
  show ?case
  proof (cases "m = length (e # es)")
    case True
    then show ?thesis using Cons.prems by blast
  next
    case False
    then have m: "m \<le> length es" using Cons.prems(3) by simp
    from tar_open_loop_cases[OF Cons.prems(2)] obtain p nxt where
      par: "par = Some p" and nx: "tar_read_entry sb (next_header_offset p) = Inr nxt"
      and rest: "tar_open_loop sb nxt (c + 1) = Some (Inr es)"
      by auto
    have "tar_read_entry sb offs = Inr (Some p)"
      using Cons.prems(1) par by simp
    then have "unat (entry_length p) < 2 ^ 32"
      by (rule tar_read_entry_length_bound)
    then have b: "unat (next_header_offset p) < 2 ^ 33 + 512"
      by (rule next_header_offset_bound)
    from Cons.IH[OF nx rest m] obtain x par' c' es' where
      "x = next_header_offset p \<or> unat x < 2 ^ 33 + 512"
      "tar_read_entry sb x = Inr par'" "tar_open_loop sb par' c' = Some (Inr es')"
      "length es' = m" by blast
    with b show ?thesis by blast
  qed
qed

lemma card_small_words: "card {x :: u64. unat x < B} \<le> B"
proof -
  have "{x :: u64. unat x < B} \<subseteq> of_nat ` {..<B}"
  proof
    fix x :: u64 assume "x \<in> {x. unat x < B}"
    then have "unat x \<in> {..<B}" by simp
    moreover have "x = of_nat (unat x)" by simp
    ultimately show "x \<in> of_nat ` {..<B}" by (rule rev_image_eqI)
  qed
  then have "card {x :: u64. unat x < B} \<le> card ((of_nat :: nat \<Rightarrow> u64) ` {..<B})"
    by (intro card_mono) simp_all
  also have "\<dots> \<le> card {..<B}" by (rule card_image_le) simp
  finally show ?thesis by simp
qed

lemma tar_open_loop_length_bound:
  assumes rd: "tar_read_entry sb offs = Inr par"
    and run: "tar_open_loop sb par c = Some (Inr es)"
  shows "length es \<le> 2 ^ 33 + 512"
proof -
  let ?B = "(2 :: nat) ^ 33 + 512"
  let ?Q = "\<lambda>m x. (x = offs \<or> unat x < ?B) \<and>
      (\<exists>par' c' es'. tar_read_entry sb x = Inr par' \<and>
         tar_open_loop sb par' c' = Some (Inr es') \<and> length es' = m)"
  have "\<forall>m \<in> {..length es}. \<exists>x. ?Q m x"
    using run_lengths[OF rd run] by (simp; blast)
  then obtain f where f: "\<forall>m \<in> {..length es}. ?Q m (f m)"
    by (rule bchoice[THEN exE]) 
  have inj: "inj_on f {..length es}"
  proof (rule inj_onI)
    fix m m' assume m: "m \<in> {..length es}" and m': "m' \<in> {..length es}" and eq: "f m = f m'"
    from f m obtain par1 c1 es1 where 1: "tar_read_entry sb (f m) = Inr par1"
      "tar_open_loop sb par1 c1 = Some (Inr es1)" "length es1 = m" by blast
    from f m' obtain par2 c2 es2 where 2: "tar_read_entry sb (f m') = Inr par2"
      "tar_open_loop sb par2 c2 = Some (Inr es2)" "length es2 = m'" by blast
    have "par1 = par2" using 1(1) 2(1) eq by simp
    with tar_open_loop_length_indep[OF 1(2), of c2] 2(2) have "length es2 = length es1"
      by auto
    then show "m = m'" using 1(3) 2(3) by simp
  qed
  have sub: "f ` {..length es} \<subseteq> insert offs {x. unat x < ?B}"
    using f by auto
  have fin: "finite (insert offs {x :: u64. unat x < ?B})" by simp
  have "Suc (length es) = card (f ` {..length es})"
    using inj by (simp add: card_image)
  also have "\<dots> \<le> card (insert offs {x. unat x < ?B})"
    by (rule card_mono[OF fin sub])
  also have "\<dots> \<le> Suc (card {x :: u64. unat x < ?B})"
    by (rule card_insert_le_m1) simp_all
  also have "\<dots> \<le> Suc ?B" using card_small_words[of ?B] by simp
  finally show ?thesis by simp
qed

lemma tar_open_numbering:
  assumes "tar_open sb = Some (Inr es)"
  shows "length es \<le> 2 ^ 33 + 512" and "i < length es \<Longrightarrow> inode (es ! i) = 2 + of_nat i"
proof -
  from assms obtain first where rd: "tar_read_entry sb 0 = Inr first"
    and run: "tar_open_loop sb first 2 = Some (Inr es)"
    by (auto simp: tar_open_def split: sum.splits)
  show "length es \<le> 2 ^ 33 + 512" by (rule tar_open_loop_length_bound[OF rd run])
  show "inode (es ! i) = 2 + of_nat i" if "i < length es"
    by (rule tar_open_loop_inodes[OF run that])
qed

section \<open>Indexing the sample archive\<close>

lemmas hdr_defs = hdr_dir_a_def hdr_file_b_def hdr_file_b2_def hdr_corrupt_def

lemma sample_header_read:
  "b < 6 \<Longrightarrow> tarfs_read sample_sb 500 (of_nat (512 * b)) = Inr (500, take 500 (sample_blocks ! b))"
  using sample_read[of b 0 500] by simp

lemma take_pad: "length h = n \<Longrightarrow> take n (pad m h) = h"
  by (simp add: pad_def)

lemma not_8_le_1: "\<not> (8 :: u32) \<le> 1"
  by (simp add: word_le_nat_alt)

lemma kstrtouint_samples:
  "kstrtouint (''00000000000'' @ NUL # r) OCTAL = Inr 0"
  "kstrtouint (''00000000005'' @ NUL # r) OCTAL = Inr 5"
  "kstrtouint (''00000000002'' @ NUL # r) OCTAL = Inr 2"
  "kstrtouint (''0000644'' @ NUL # r) OCTAL = Inr 0x1A4"
  "kstrtouint (''0001750'' @ NUL # r) OCTAL = Inr 0x3E8"
  "kstrtouint (''zzz'' @ NUL # r) OCTAL = Inl EINVAL"
  by (simp_all add: kstrtouint_def kstrtoull_def OCTAL_def digit_val_def NUL_def Let_def
        not_8_le_1)

lemma mk_header_fields:
  assumes "length name < 100" "length sz < 12"
  shows "length (mk_header name sz t) = 500"
    and "header_magic (mk_header name sz t) = take 6 OLDGNU_MAGIC"
    and "\<exists>r. header_size (mk_header name sz t) = sz @ NUL # r"
    and "\<exists>r. header_mode (mk_header name sz t) = ''0000644'' @ NUL # r"
    and "\<exists>r. header_uid (mk_header name sz t) = ''0001750'' @ NUL # r"
    and "\<exists>r. header_gid (mk_header name sz t) = ''0001750'' @ NUL # r"
    and "header_prefix (mk_header name sz t) = replicate 131 NUL"
    and "header_name (mk_header name sz t) = pad 100 name"
    and "header_typeflag (mk_header name sz t) = t"
proof -
  obtain k where k: "12 - length sz = Suc k" using assms(2) by (cases "12 - length sz") auto
  show "length (mk_header name sz t) = 500"
    using assms by (simp add: mk_header_def pad_def)
  show "header_magic (mk_header name sz t) = take 6 OLDGNU_MAGIC"
    using assms by (simp add: mk_header_def pad_def header_magic_def OLDGNU_MAGIC_def)
  show "\<exists>r. header_size (mk_header name sz t) = sz @ NUL # r"
    using assms k by (simp add: mk_header_def pad_def header_size_def)
  show "\<exists>r. header_mode (mk_header name sz t) = ''0000644'' @ NUL # r"
    using assms by (simp add: mk_header_def pad_def header_mode_def)
  show "\<exists>r. header_uid (mk_header name sz t) = ''0001750'' @ NUL # r"
    using assms by (simp add: mk_header_def pad_def header_uid_def)
  show "\<exists>r. header_gid (mk_header name sz t) = ''0001750'' @ NUL # r"
    using assms by (simp add: mk_header_def pad_def header_gid_def)
  show "header_prefix (mk_header name sz t) = replicate 131 NUL"
    using assms by (simp add: mk_header_def pad_def header_prefix_def)
  show "header_name (mk_header name sz t) = pad 100 name"
    using assms by (simp add: mk_header_def pad_def header_name_def)
  show "header_typeflag (mk_header name sz t) = t"
  proof -
    define pre where "pre = pad 100 name @ pad 8 ''0000644'' @ pad 8 ''0001750'' @
      pad 8 ''0001750'' @ pad 12 sz @ pad 12 ''00000000000'' @ pad 8 ''0000000''"
    have l: "length pre = 156" using assms by (simp add: pre_def pad_def)
    obtain rest where m: "mk_header name sz t = pre @ t # rest"
      by (simp add: mk_header_def pre_def)
    have "(pre @ t # rest) ! 156 = t" using nth_append_length[of pre t rest] l by simp
    then show ?thesis using l by (simp add: header_typeflag_def m)
  qed
qed

lemma build_name_mk_header:
  assumes "length name < 100" "length sz < 12" "NUL \<notin> set name" "name \<noteq> []"
  shows "build_name (mk_header name sz t) =
           Inr (if last name = CHR ''/'' then butlast name else name)"
proof -
  have p: "memchr (header_prefix (mk_header name sz t)) NUL = Some 0"
    using assms by (simp add: mk_header_fields memchr_def)
  obtain k where k: "100 - length name = Suc k"
    using assms(1) by (cases "100 - length name") auto
  have "takeWhile (\<lambda>x. x \<noteq> NUL) (name @ NUL # replicate k NUL) = name"
    using assms(3) by (subst takeWhile_append2) auto
  then have n: "memchr (header_name (mk_header name sz t)) NUL = Some (length name)"
    using assms k by (simp add: mk_header_fields memchr_def pad_def)
  have t: "take (length name) (header_name (mk_header name sz t)) = name"
    using assms by (simp add: mk_header_fields pad_def)
  show ?thesis
    using assms(4)
    by (simp add: build_name_def p n t last_conv_nth butlast_conv_take)
qed

lemma tar_read_entry_mk_header:
  assumes rd: "tarfs_read sb 500 offs = Inr (500, mk_header name sz t)"
    and nm: "length name < 100" "length sz < 12" "NUL \<notin> set name" "name \<noteq> []"
    and sz: "\<And>r. kstrtouint (sz @ NUL # r) OCTAL = Inr len"
    and full: "full = (if last name = CHR ''/'' then butlast name else name)"
  shows "tar_read_entry sb offs =
     Inr (Some \<lparr>header = mk_header name sz t,
       dirname = (case strrchr full (CHR ''/'') of Some i \<Rightarrow> take i full | None \<Rightarrow> []),
       basename = (case strrchr full (CHR ''/'') of Some i \<Rightarrow> drop (Suc i) full | None \<Rightarrow> full),
       offset = ucast offs, data_offset = ucast (offs + 512), entry_length = ucast len,
       inode = 0, mode = 0x1A4, uid = 0x3E8, gid = 0x3E8\<rparr>)"
proof -
  let ?h = "mk_header name sz t"
  obtain r1 where 1: "header_size ?h = sz @ NUL # r1"
    using mk_header_fields(3)[OF nm(1,2)] by blast
  obtain r2 where 2: "header_mode ?h = ''0000644'' @ NUL # r2"
    using mk_header_fields(4)[OF nm(1,2)] by blast
  obtain r3 where 3: "header_uid ?h = ''0001750'' @ NUL # r3"
    using mk_header_fields(5)[OF nm(1,2)] by blast
  obtain r4 where 4: "header_gid ?h = ''0001750'' @ NUL # r4"
    using mk_header_fields(6)[OF nm(1,2)] by blast
  have m: "header_magic ?h = take 6 OLDGNU_MAGIC"
    by (rule mk_header_fields(2)[OF nm(1,2)])
  have b: "build_name ?h = Inr full"
    unfolding full by (rule build_name_mk_header[OF nm])
  have al: "(500 :: u64) + ALIGN_SECTOR 500 = 512"
    by (simp add: ALIGN_SECTOR_def)
  have k: "kstrtouint (header_size ?h) OCTAL = Inr len"
    "kstrtouint (header_mode ?h) OCTAL = Inr 0x1A4"
    "kstrtouint (header_uid ?h) OCTAL = Inr 0x3E8"
    "kstrtouint (header_gid ?h) OCTAL = Inr 0x3E8"
    unfolding 1 2 3 4 by (simp_all only: sz kstrtouint_samples)
  show ?thesis
    unfolding tar_read_entry_def sizeof_star_header_def
    by (simp add: rd m k b al add.assoc split: option.splits)
qed

lemma tar_read_entry_bad_size:
  assumes rd: "tarfs_read sb (of_nat sizeof_star_header) offs = Inr (n, hdr)"
    and sz: "kstrtouint (header_size hdr) OCTAL = Inl e"
  shows "tar_read_entry sb offs = Inr None"
  unfolding tar_read_entry_def by (simp add: rd sz)

lemma tar_read_entry_bad_magic:
  assumes rd: "tarfs_read sb (of_nat sizeof_star_header) offs = Inr (n, hdr)"
    and sz: "header_magic hdr \<noteq> take 6 OLDGNU_MAGIC"
  shows "tar_read_entry sb offs = Inr None"
  unfolding tar_read_entry_def by (simp add: rd sz)

lemma sample_headers:
  "tarfs_read sample_sb 500 0 = Inr (500, hdr_dir_a)"
  "tarfs_read sample_sb 500 512 = Inr (500, hdr_file_b)"
  "tarfs_read sample_sb 500 1536 = Inr (500, hdr_file_b2)"
  "tarfs_read sample_sb 500 2560 = Inr (500, hdr_corrupt)"
  using sample_header_read[of 0] sample_header_read[of 1] sample_header_read[of 3]
    sample_header_read[of 5]
  by (simp_all add: sample_blocks_def take_pad mk_header_fields(1) hdr_defs)

lemmas kstrtouint_samples' = kstrtouint_samples[unfolded append_Cons append_Nil]

lemma sample_names:
  "NUL \<notin> set ''a/''" "NUL \<notin> set ''a/b.txt''" "NUL \<notin> set ''c''"
  by (simp_all add: NUL_def)

lemma sample_entries:
  "tar_read_entry sample_sb 0 = Inr (Some (entry_dir_a\<lparr>inode := 0\<rparr>))"
  "tar_read_entry sample_sb 512 = Inr (Some (entry_file_b\<lparr>inode := 0\<rparr>))"
  "tar_read_entry sample_sb 1536 = Inr (Some (entry_file_b2\<lparr>inode := 0\<rparr>))"
  "tar_read_entry sample_sb 2560 = Inr None"
proof -
  show "tar_read_entry sample_sb 0 = Inr (Some (entry_dir_a\<lparr>inode := 0\<rparr>))"
    by (subst tar_read_entry_mk_header[where name = "''a/''" and sz = "''00000000000''"
          and t = DIRTYPE and len = 0 and full = "''a''"])
       (simp_all add: sample_headers[unfolded hdr_defs] kstrtouint_samples' sample_names[simplified]
          entry_dir_a_def hdr_defs)
  show "tar_read_entry sample_sb 512 = Inr (Some (entry_file_b\<lparr>inode := 0\<rparr>))"
    by (subst tar_read_entry_mk_header[where name = "''a/b.txt''" and sz = "''00000000005''"
          and t = REGTYPE and len = 5 and full = "''a/b.txt''"])
       (simp_all add: sample_headers[unfolded hdr_defs] kstrtouint_samples' sample_names[simplified]
          entry_file_b_def hdr_defs)
  show "tar_read_entry sample_sb 1536 = Inr (Some (entry_file_b2\<lparr>inode := 0\<rparr>))"
    by (subst tar_read_entry_mk_header[where name = "''a/b.txt''" and sz = "''00000000002''"
          and t = REGTYPE and len = 2 and full = "''a/b.txt''"])
       (simp_all add: sample_headers[unfolded hdr_defs] kstrtouint_samples' sample_names[simplified]
          entry_file_b2_def hdr_defs)
  obtain r where "header_size hdr_corrupt = ''zzz'' @ NUL # r"
    using mk_header_fields(3)[of "''c''" "''zzz''" REGTYPE] by (auto simp: hdr_defs)
  then have "kstrtouint (header_size hdr_corrupt) OCTAL = Inl EINVAL"
    by (simp only: kstrtouint_samples)
  then show "tar_read_entry sample_sb 2560 = Inr None"
    using tar_read_entry_bad_size[of sample_sb 2560 500 hdr_corrupt EINVAL]
    by (simp add: sample_headers sizeof_star_header_def)
qed

lemma sample_next_offsets:
  "next_header_offset (entry_dir_a\<lparr>inode := 0\<rparr>) = 512"
  "next_header_offset (entry_file_b\<lparr>inode := 0\<rparr>) = 1536"
  "next_header_offset (entry_file_b2\<lparr>inode := 0\<rparr>) = 2560"
  by (simp_all add: next_header_offset_def ALIGN_SECTOR_signed_def entry_dir_a_def
        entry_file_b_def entry_file_b2_def Let_def)

lemma sample_valid_entries:
  "valid_entries_from sample_sb 0 3 =
     Some ([entry_dir_a\<lparr>inode := 0\<rparr>, entry_file_b\<lparr>inode := 0\<rparr>,
            entry_file_b2\<lparr>inode := 0\<rparr>], 2560)"
  by (simp add: numeral_3_eq_3 sample_entries sample_next_offsets)

lemma sample_open:
  "tar_open sample_sb = Some (Inr [entry_dir_a, entry_file_b, entry_file_b2])"
proof -
  from valid_entries_open_loop[OF sample_valid_entries sample_entries(4), of 2]
  have "tar_open_loop sample_sb (Some (entry_dir_a\<lparr>inode := 0\<rparr>)) 2 =
      Some (Inr (assign_inodes 2 [entry_dir_a\<lparr>inode := 0\<rparr>, entry_file_b\<lparr>inode := 0\<rparr>,
            entry_file_b2\<lparr>inode := 0\<rparr>]))"
    by (simp add: sample_entries)
  then show ?thesis
    by (simp add: tar_open_def sample_entries entry_dir_a_def entry_file_b_def
          entry_file_b2_def)
qed

section \<open>Identities: claims C9 and C8\<close>

lemma tar_open_inode_unat:
  assumes "tar_open sb = Some (Inr es)" "i < length es"
  shows "unat (inode (es ! i)) = 2 + i"
proof -
  have "i < 2 ^ 33 + 512" using tar_open_numbering(1)[OF assms(1)] assms(2) by simp
  then have "2 + i < (2 :: nat) ^ 64" by simp
  then have "unat (of_nat (2 + i) :: u64) = 2 + i" by (rule unat_of_nat64)
  then show ?thesis using tar_open_numbering(2)[OF assms] by simp
qed

lemma tar_open_distinct_inodes:
  assumes "tar_open sb = Some (Inr es)"
  shows "distinct (map inode es)"
proof -
  have "map (\<lambda>e. unat (inode e)) es = map (\<lambda>i. 2 + i) [0 ..< length es]"
    by (rule nth_equalityI) (simp_all add: tar_open_inode_unat[OF assms])
  moreover have "distinct (map (\<lambda>i. 2 + i) [0 ..< length es])"
    by (simp add: distinct_map inj_on_def)
  ultimately have "distinct (map unat (map inode es))" by (simp add: comp_def)
  then show ?thesis by (auto simp: distinct_map inj_on_def)
qed

text \<open>
  C9.  In every index that \<^verbatim>\<open>tar_open\<close> returns, no two entries have the same inode
  number, the numbers grow strictly in archive order, and each is above \<open>ROOT_INO\<close>.
  The counter is a 64-bit word, but it cannot wrap: a loop that ends never reads a header
  offset twice, and the offsets it can compute are fewer than \<open>2^33 + 513\<close>.
\<close>

theorem tar_open_inodes_unique_increasing:
  assumes "tar_open sb = Some (Inr es)"
  shows "distinct (map inode es) \<and>
         (\<forall>i j. i < j \<and> j < length es \<longrightarrow> inode (es ! i) < inode (es ! j)) \<and>
         (\<forall>e \<in> set es. ROOT_INO < inode e)"
proof (intro conjI allI impI ballI)
  show "distinct (map inode es)" by (rule tar_open_distinct_inodes[OF assms])
next
  fix i j assume "i < j \<and> j < length es"
  then show "inode (es ! i) < inode (es ! j)"
    by (simp add: word_less_nat_alt tar_open_inode_unat[OF assms])
next
  fix e assume "e \<in> set es"
  then obtain i where "i < length es" "e = es ! i" by (auto simp: in_set_conv_nth)
  then show "ROOT_INO < inode e"
    by (simp add: word_less_nat_alt tar_open_inode_unat[OF assms] ROOT_INO_def)
qed

theorem tar_open_inodes_unique_increasing_witness:
  "tar_open sample_sb = Some (Inr [entry_dir_a, entry_file_b, entry_file_b2]) \<and>
   distinct (map inode [entry_dir_a, entry_file_b, entry_file_b2]) \<and>
   inode entry_dir_a < inode entry_file_b \<and> inode entry_file_b < inode entry_file_b2 \<and>
   ROOT_INO < inode entry_dir_a"
proof -
  note t = tar_open_inodes_unique_increasing[OF sample_open]
  from t have "inode ([entry_dir_a, entry_file_b, entry_file_b2] ! 0)
      < inode ([entry_dir_a, entry_file_b, entry_file_b2] ! 1)" by force
  moreover from t have "inode ([entry_dir_a, entry_file_b, entry_file_b2] ! 1)
      < inode ([entry_dir_a, entry_file_b, entry_file_b2] ! 2)" by force
  moreover from t have "ROOT_INO < inode entry_dir_a" by simp
  ultimately show ?thesis using t sample_open by simp
qed

lemma strcmp_eq_0 [simp]: "strcmp a b = 0 \<longleftrightarrow> a = b"
proof (induction a b rule: strcmp.induct)
  case (4 x xs y ys)
  then show ?case by (auto simp: of_char_eq_iff)
qed simp_all

lemma tar_find_Some:
  "tar_find es dir base = Some e \<Longrightarrow> e \<in> set es \<and> dirname e = dir \<and> basename e = base"
  by (induction es) (auto split: if_splits)

lemma tarfs_find_by_inode_distinct:
  "distinct (map inode es) \<Longrightarrow> e \<in> set es \<Longrightarrow> tarfs_find_by_inode es (inode e) = Some e"
  by (induction es) (auto simp: image_iff)

text \<open>
  C8.  In an index built by \<^verbatim>\<open>tar_open\<close>, looking up the inode number of the entry
  that \<^verbatim>\<open>tar_find\<close> returned gives that same entry.
\<close>

theorem find_by_inode_after_tar_find:
  assumes "tar_open sb = Some (Inr es)" "tar_find es dir base = Some e"
  shows "tarfs_find_by_inode es (inode e) = Some e"
  using tarfs_find_by_inode_distinct[OF tar_open_distinct_inodes[OF assms(1)]]
    tar_find_Some[OF assms(2)] by simp

theorem find_by_inode_after_tar_find_witness:
  "tar_open sample_sb = Some (Inr [entry_dir_a, entry_file_b, entry_file_b2]) \<and>
   tar_find [entry_dir_a, entry_file_b, entry_file_b2] ''a'' ''b.txt'' = Some entry_file_b \<and>
   tarfs_find_by_inode [entry_dir_a, entry_file_b, entry_file_b2] (inode entry_file_b)
     = Some entry_file_b"
proof -
  have f: "tar_find [entry_dir_a, entry_file_b, entry_file_b2] ''a'' ''b.txt'' = Some entry_file_b"
    by (simp add: entry_dir_a_def entry_file_b_def)
  from find_by_inode_after_tar_find[OF sample_open f] f sample_open show ?thesis by simp
qed

section \<open>Duplicate paths: claim C2\<close>

lemma tar_find_first:
  assumes "i < length es" "dirname (es ! i) = dir \<and> basename (es ! i) = base"
    "\<forall>k < i. \<not> (dirname (es ! k) = dir \<and> basename (es ! k) = base)"
  shows "tar_find es dir base = Some (es ! i)"
  using assms
proof (induction es arbitrary: i)
  case Nil
  then show ?case by simp
next
  case (Cons e es)
  show ?case
  proof (cases i)
    case 0
    then show ?thesis using Cons.prems(2) by simp
  next
    case (Suc k)
    have "\<not> (dirname e = dir \<and> basename e = base)"
      using Cons.prems(3) Suc by (auto dest: spec[of _ 0])
    moreover have "tar_find es dir base = Some (es ! k)"
    proof (rule Cons.IH)
      show "k < length es" using Cons.prems(1) Suc by simp
      show "dirname (es ! k) = dir \<and> basename (es ! k) = base"
        using Cons.prems(2) Suc by simp
      show "\<forall>m < k. \<not> (dirname (es ! m) = dir \<and> basename (es ! m) = base)"
      proof (intro allI impI)
        fix m assume "m < k"
        then have "Suc m < i" using Suc by simp
        with Cons.prems(3) show "\<not> (dirname (es ! m) = dir \<and> basename (es ! m) = base)"
          by (auto dest: spec[of _ "Suc m"])
      qed
    qed
    ultimately show ?thesis using Suc by auto
  qed
qed

text \<open>
  C2, as amended.  The claim lets the last of two entries with the same directory and name
  win.  \<^verbatim>\<open>tar_find\<close> walks the list from its head and returns at the first match: of two
  such entries at positions \<open>i < j\<close> it returns the one at the first position that
  holds the pair, which is not the entry at \<open>j\<close>.
\<close>

theorem tar_find_returns_first_occurrence:
  assumes "tar_open sb = Some (Inr es)" "i < j" "j < length es"
    "dirname (es ! i) = dir \<and> basename (es ! i) = base"
    "dirname (es ! j) = dir \<and> basename (es ! j) = base"
    "\<forall>k < i. \<not> (dirname (es ! k) = dir \<and> basename (es ! k) = base)"
  shows "tar_find es dir base = Some (es ! i) \<and> es ! i \<noteq> es ! j"
proof -
  have "tar_find es dir base = Some (es ! i)"
    using assms by (intro tar_find_first) simp_all
  moreover have "inode (es ! i) \<noteq> inode (es ! j)"
    using tar_open_distinct_inodes[OF assms(1)] assms(2,3)
    by (auto simp: distinct_conv_nth)
  ultimately show ?thesis by auto
qed

theorem tar_find_returns_first_occurrence_witness:
  "tar_open sample_sb = Some (Inr [entry_dir_a, entry_file_b, entry_file_b2]) \<and>
   tar_find [entry_dir_a, entry_file_b, entry_file_b2] ''a'' ''b.txt'' = Some entry_file_b \<and>
   entry_file_b \<noteq> entry_file_b2"
  using tar_find_returns_first_occurrence[OF sample_open, of 1 2 "''a''" "''b.txt''"] sample_open
  by (simp add: entry_dir_a_def entry_file_b_def entry_file_b2_def)

theorem tar_find_last_occurrence_counterexample:
  "tar_open sample_sb = Some (Inr [entry_dir_a, entry_file_b, entry_file_b2]) \<and>
   dirname ([entry_dir_a, entry_file_b, entry_file_b2] ! 1)
     = dirname ([entry_dir_a, entry_file_b, entry_file_b2] ! 2) \<and>
   basename ([entry_dir_a, entry_file_b, entry_file_b2] ! 1)
     = basename ([entry_dir_a, entry_file_b, entry_file_b2] ! 2) \<and>
   tar_find [entry_dir_a, entry_file_b, entry_file_b2] ''a'' ''b.txt''
     \<noteq> Some ([entry_dir_a, entry_file_b, entry_file_b2] ! 2)"
  using sample_open by (simp add: entry_dir_a_def entry_file_b_def entry_file_b2_def)

section \<open>Where indexing stops: claims C4 and C3\<close>

lemma kstrtouint_rejects_leading_garbage:
  assumes "c \<noteq> CHR ''+''" and "digit_val c = None \<or> (\<exists>v. digit_val c = Some v \<and> OCTAL \<le> v)"
  shows "kstrtouint (c # s) OCTAL = Inl EINVAL"
proof -
  have "parse_integer (c # s) OCTAL 0 0 False = (0, 0, False)"
    using assms(2) by auto
  then show ?thesis
    using assms(1) by (simp add: kstrtouint_def kstrtoull_def)
qed

lemma kstrtouint_rejects_empty: "kstrtouint (NUL # s) OCTAL = Inl EINVAL"
  by (rule kstrtouint_rejects_leading_garbage) (simp_all add: NUL_def digit_val_def)

lemma tar_open_first_fetch_fails:
  assumes "s_blocksize sb \<noteq> 0" and "sb_bread sb 0 = None"
  shows "tar_open sb = Some (Inl NullPointerDereference)"
proof -
  have "tarfs_read sb (of_nat sizeof_star_header) 0 = Inl NullPointerDereference"
    using assms
    by (simp add: tarfs_read_def tarfs_read_loop.simps[of sb 500]
          sizeof_star_header_def)
  then show ?thesis by (simp add: tar_open_def tar_read_entry_def)
qed




lemma zero_sb_header: "tarfs_read zero_sb 500 0 = Inr (500, replicate 500 NUL)"
proof -
  have bs: "s_blocksize zero_sb \<noteq> 0" by (simp add: zero_sb_def)
  have bh: "sb_bread zero_sb (block_nr zero_sb 0) = Some \<lparr>b_size = 512, b_data = (\<lambda>i. NUL)\<rparr>"
    by (simp add: zero_sb_def)
  have "read_bytes zero_sb 0 500 = Inr (memcpy (\<lambda>i. NUL) 0 500)"
    using read_bytes_in_block[OF bs _ bh, of 500] by (simp add: zero_sb_def)
  then show ?thesis
    using tarfs_read_eq[of 0 500 zero_sb] by (simp add: memcpy_const)
qed

lemma zero_magic: "header_magic (replicate 500 NUL) \<noteq> take 6 OLDGNU_MAGIC"
  by (simp add: header_magic_def OLDGNU_MAGIC_def NUL_def eval_nat_numeral)













text \<open>
  C3, as amended.  When the first header can be fetched and fails the magic check,
  \<^verbatim>\<open>tar_open\<close> returns the index without entries, which in C is the null pointer; the
  mount routine \<^verbatim>\<open>tarfs_fill_sb\<close> takes that for a failure and returns \<open>-ENOMEM\<close>.  So the
  empty result is an error of the mount, against the claim.  A device whose first block
  cannot be fetched is a different matter (\<open>tar_open_first_fetch_fails\<close>).
\<close>

theorem tar_open_without_magic:
  assumes "tarfs_read sb (of_nat sizeof_star_header) 0 = Inr (n, hdr)"
    and "header_magic hdr \<noteq> take 6 OLDGNU_MAGIC"
  shows "tar_open sb = Some (Inr []) \<and>
         tarfs_fill_sb sb new_inode_ok d_make_root_ok = Some (Inr (Inl ENOMEM))"
proof -
  have "tar_read_entry sb 0 = Inr None"
    by (rule tar_read_entry_bad_magic[OF assms])
  then have "tar_open sb = Some (Inr [])"
    by (simp add: tar_open_def tar_open_loop_None)
  then show ?thesis by (simp add: tarfs_fill_sb_def)
qed

theorem tar_open_without_magic_witness:
  "tarfs_read zero_sb 500 0 = Inr (500, replicate 500 NUL) \<and>
   header_magic (replicate 500 NUL) \<noteq> take 6 OLDGNU_MAGIC \<and>
   tar_open zero_sb = Some (Inr [])"
  using tar_open_without_magic[of zero_sb 500 "replicate 500 NUL"] zero_sb_header zero_magic
  by (simp add: sizeof_star_header_def)

theorem empty_index_is_mount_error_counterexample:
  "tarfs_read zero_sb 500 0 = Inr (500, replicate 500 NUL) \<and>
   tarfs_fill_sb zero_sb True True = Some (Inr (Inl ENOMEM))"
proof -
  have "tar_read_entry zero_sb 0 = Inr None"
    using tar_read_entry_bad_magic[of zero_sb 0 500 "replicate 500 NUL"] zero_sb_header zero_magic
    by (simp add: sizeof_star_header_def)
  then show ?thesis
    by (simp add: zero_sb_header tarfs_fill_sb_def tar_open_def tar_open_loop_None)
qed

section \<open>Paths that end in a separator: claim C5\<close>

lemma strrchr_None: "strrchr s c = None \<longleftrightarrow> c \<notin> set s"
  by (induction s) (auto split: option.splits)

lemma strrchr_Some:
  "strrchr s c = Some i \<Longrightarrow> i < length s \<and> s ! i = c \<and> c \<notin> set (drop (Suc i) s)"
proof (induction s arbitrary: i)
  case Nil
  then show ?case by simp
next
  case (Cons x xs)
  show ?case
  proof (cases "strrchr xs c")
    case None
    then have "c \<notin> set xs" by (simp add: strrchr_None)
    then show ?thesis using Cons.prems None by (auto split: if_splits)
  next
    case (Some k)
    then show ?thesis using Cons.prems Cons.IH[OF Some] by auto
  qed
qed

lemma build_name_path:
  assumes "build_name h = Inr full" "header_path h = p @ ''/''"
  shows "full = p"
proof -
  from assms(1) obtain pl nl where
    pl: "memchr (header_prefix h) NUL = Some pl" and nl: "memchr (header_name h) NUL = Some nl"
    by (auto simp: build_name_def split: option.splits)
  have tp: "take pl (header_prefix h) = cstr (header_prefix h)" and lp: "length (cstr (header_prefix h)) = pl"
    using pl by (auto simp: memchr_def cstr_def takeWhile_eq_take[symmetric] split: if_splits)
  have tn: "take nl (header_name h) = cstr (header_name h)" and ln: "length (cstr (header_name h)) = nl"
    using nl by (auto simp: memchr_def cstr_def takeWhile_eq_take[symmetric] split: if_splits)
  have name: "take pl (header_prefix h) @ take nl (header_name h) = p @ ''/''"
    using assms(2) by (simp add: header_path_def tp tn)
  have len: "pl + nl = Suc (length p)"
    using arg_cong[OF assms(2), of length] by (simp add: header_path_def lp ln)
  have "(p @ ''/'') ! length p = CHR ''/''" by simp
  then show ?thesis
    using assms(1) by (simp add: build_name_def pl nl name len)
qed

lemma tar_type_to_posix_dir: "tar_type_to_posix t = S_IFDIR \<longleftrightarrow> t = DIRTYPE"
  by (simp add: tar_type_to_posix_def S_IFDIR_def S_IFREG_def S_IFLNK_def S_IFCHR_def
        S_IFBLK_def S_IFIFO_def DIRTYPE_def REGTYPE_def AREGTYPE_def NUL_def)

lemma header_path_mk_header:
  assumes "length name < 100" "length sz < 12" "NUL \<notin> set name"
  shows "header_path (mk_header name sz t) = name"
proof -
  obtain k where k: "100 - length name = Suc k"
    using assms(1) by (cases "100 - length name") auto
  have "takeWhile (\<lambda>x. x \<noteq> NUL) (name @ NUL # replicate k NUL) = name"
    using assms(3) by (subst takeWhile_append2) auto
  then have "cstr (header_name (mk_header name sz t)) = name"
    using assms k by (simp add: mk_header_fields cstr_def pad_def)
  moreover have "cstr (header_prefix (mk_header name sz t)) = []"
    using assms by (simp add: mk_header_fields cstr_def eval_nat_numeral)
  ultimately show ?thesis by (simp add: header_path_def)
qed

lemma slash_header: "tarfs_read slash_sb 500 0 = Inr (500, hdr_slash_file)"
proof -
  have l: "length hdr_slash_file = 500"
    by (simp add: hdr_slash_file_def mk_header_fields)
  have "tarfs_read (device [pad 512 hdr_slash_file]) (of_nat 500) (of_nat (512 * 0 + 0)) =
      Inr (of_nat 500, take 500 (drop 0 ([pad 512 hdr_slash_file] ! 0)))"
    by (rule device_read) (simp_all add: length_pad l)
  then show ?thesis by (simp add: slash_sb_def take_pad l)
qed

text \<open>
  C5, as amended.  When a header decodes and the path it spells, prefix followed by name,
  ends in a separator, the entry stores the path without that one separator: directory
  and name are its two sides of the last separator left, and the name holds none.  The
  kind does not follow from the separator: the file type is that of a directory exactly
  when the type flag of the header is \<open>DIRTYPE\<close>.
\<close>

theorem trailing_separator_dropped_kind_from_typeflag:
  assumes "tar_read_entry sb offs = Inr (Some e)" and "header_path (header e) = p @ ''/''"
  shows "(if CHR ''/'' \<in> set p then dirname e @ ''/'' @ basename e = p
          else dirname e = [] \<and> basename e = p) \<and>
         CHR ''/'' \<notin> set (basename e) \<and>
         (tar_type_to_posix (header_typeflag (header e)) = S_IFDIR
            \<longleftrightarrow> header_typeflag (header e) = DIRTYPE)"
proof -
  from tar_read_entry_SomeD[OF assms(1)] obtain full where
    b: "build_name (header e) = Inr full"
    and d: "dirname e = (case strrchr full (CHR ''/'') of Some i \<Rightarrow> take i full | None \<Rightarrow> [])"
    and n: "basename e = (case strrchr full (CHR ''/'') of Some i \<Rightarrow> drop (Suc i) full
                          | None \<Rightarrow> full)"
    by auto
  have full: "full = p" by (rule build_name_path[OF b assms(2)])
  show ?thesis
  proof (cases "strrchr p (CHR ''/'')")
    case None
    then have "CHR ''/'' \<notin> set p" by (simp add: strrchr_None)
    then show ?thesis
      using d n full None by (simp add: tar_type_to_posix_dir)
  next
    case (Some i)
    from strrchr_Some[OF Some] have i: "i < length p" "p ! i = CHR ''/''"
      "CHR ''/'' \<notin> set (drop (Suc i) p)" by auto
    have "CHR ''/'' \<in> set p" using i by (auto simp: in_set_conv_nth)
    moreover have "take i p @ ''/'' @ drop (Suc i) p = p"
      using id_take_nth_drop[OF i(1)] i(2) by simp
    ultimately show ?thesis
      using d n full Some i(3) by (simp add: tar_type_to_posix_dir)
  qed
qed

theorem trailing_separator_dropped_kind_from_typeflag_witness:
  "tar_read_entry sample_sb 0 = Inr (Some (entry_dir_a\<lparr>inode := 0\<rparr>)) \<and>
   header_path hdr_dir_a = ''a'' @ ''/'' \<and>
   dirname entry_dir_a = [] \<and> basename entry_dir_a = ''a'' \<and>
   tar_type_to_posix (header_typeflag hdr_dir_a) = S_IFDIR"
proof -
  have hp: "header_path hdr_dir_a = ''a'' @ ''/''"
    using header_path_mk_header[of "''a/''" "''00000000000''" DIRTYPE]
    by (simp add: hdr_dir_a_def NUL_def)
  have tf: "header_typeflag hdr_dir_a = DIRTYPE"
    by (simp add: hdr_dir_a_def mk_header_fields)
  from trailing_separator_dropped_kind_from_typeflag[OF sample_entries(1), of "''a''"] hp tf
  show ?thesis
    by (simp add: sample_entries entry_dir_a_def)
qed

theorem trailing_separator_not_directory_counterexample:
  "header_path hdr_slash_file = ''a/'' \<and>
   tar_read_entry slash_sb 0 = Inr (Some slash_entry) \<and>
   header slash_entry = hdr_slash_file \<and>
   tar_type_to_posix (header_typeflag (header slash_entry)) = S_IFREG \<and>
   S_IFREG \<noteq> S_IFDIR"
proof -
  have hp: "header_path hdr_slash_file = ''a/''"
    using header_path_mk_header[of "''a/''" "''00000000000''" REGTYPE]
    by (simp add: hdr_slash_file_def NUL_def)
  have tf: "header_typeflag hdr_slash_file = REGTYPE"
    by (simp add: hdr_slash_file_def mk_header_fields)
  have "tar_read_entry slash_sb 0 = Inr (Some slash_entry)"
    by (subst tar_read_entry_mk_header[where name = "''a/''" and sz = "''00000000000''"
          and t = REGTYPE and len = 0 and full = "''a''"])
       (simp_all add: slash_header[unfolded hdr_slash_file_def] kstrtouint_samples'
          sample_names[simplified] slash_entry_def hdr_slash_file_def)
  then show ?thesis
    using hp tf
    by (simp add: slash_entry_def tar_type_to_posix_def REGTYPE_def S_IFREG_def S_IFDIR_def)
qed

section \<open>Reading in pieces: claim C7\<close>

lemma unat_of_nat32: "a < 2 ^ 32 \<Longrightarrow> unat (of_nat a :: u32) = a"
  by (simp add: unat_of_nat)

lemma tar_read_within:
  assumes fit: "unat (data_offset e) + unat (entry_length e) < 2 ^ 32"
    and inside: "unat off + unat len \<le> unat (entry_length e)"
  shows "tar_read sb e off len =
           (case read_bytes sb (unat (data_offset e) + unat off) (unat len) of
              Inl f \<Rightarrow> Inl f
            | Inr r \<Rightarrow> Inr (len, r))"
proof -
  let ?L = "entry_length e"
  have uo: "unat (ucast off :: u64) = unat off" by (rule unat_ucast_u32)
  have le: "(ucast off :: u64) \<le> ?L"
    using inside by (simp add: word_le_nat_alt uo)
  have "unat (?L - ucast off) = unat ?L - unat off"
    using le by (simp add: unat_sub uo)
  then have "len \<le> ?L - ucast off"
    using inside by (simp add: word_le_nat_alt)
  then have m: "min len (?L - ucast off) = len" by (simp add: min_def)
  have "unat (data_offset e) + unat off < 2 ^ 32" using fit inside by simp
  then have a: "unat (data_offset e + off) = unat (data_offset e) + unat off"
    by (simp add: unat_add_lem[THEN iffD1])
  have a': "unat (ucast (data_offset e + off) :: u64) = unat (data_offset e) + unat off"
    by (simp add: unat_ucast_u32 a)
  have "unat (ucast (data_offset e + off) :: u64) + unat len < 2 ^ 64"
    unfolding a' using fit inside by simp
  from tarfs_read_eq[OF this, of sb] show ?thesis
    by (simp add: tar_read_def m a' Let_def)
qed

lemma read_chunks_eq:
  assumes fit: "unat (data_offset e) + unat (entry_length e) < 2 ^ 32"
  shows "pos + sum_list cs \<le> unat (entry_length e) \<Longrightarrow>
         read_chunks sb e pos cs = read_bytes sb (unat (data_offset e) + pos) (sum_list cs)"
proof (induction cs arbitrary: pos)
  case Nil
  then show ?case by simp
next
  case (Cons c cs)
  have small: "pos < 2 ^ 32" "c < 2 ^ 64" using Cons.prems fit by simp_all
  have up: "unat (of_nat pos :: u32) = pos" by (rule unat_of_nat32[OF small(1)])
  have uc: "unat (of_nat c :: u64) = c" by (rule unat_of_nat64[OF small(2)])
  have rd: "tar_read sb e (of_nat pos) (of_nat c) =
      (case read_bytes sb (unat (data_offset e) + pos) c of
         Inl f \<Rightarrow> Inl f | Inr r \<Rightarrow> Inr (of_nat c, r))"
    using tar_read_within[OF fit, of "of_nat pos" "of_nat c" sb] Cons.prems
    by (simp add: up uc)
  have IH: "read_chunks sb e (pos + c) cs =
      read_bytes sb (unat (data_offset e) + (pos + c)) (sum_list cs)"
    by (rule Cons.IH) (use Cons.prems in simp)
  show ?case
    by (simp add: rd IH uc read_bytes_append add.assoc split: sum.splits)
qed

lemma ab_reads:
  "tar_read ab_sb high_entry 0 514 = Inr (514, replicate 512 (CHR ''B'') @ replicate 2 (CHR ''B''))"
  "tar_read ab_sb high_entry 0 512 = Inr (512, replicate 512 (CHR ''B''))"
  "tar_read ab_sb high_entry 512 2 = Inr (2, replicate 2 (CHR ''A''))"
  by (simp_all add: tar_read_def tarfs_read_def tarfs_read_loop.simps ab_sb_def high_entry_def
        memcpy_const)

text \<open>
  For an entry whose payload ends below \<open>2^32\<close>, reading the payload in consecutive
  pieces of any sizes that add up to its length gives the result of the one read of the
  whole payload: the same bytes, or the same fault.
\<close>

lemma chunked_reads_equal_single_read:
  assumes "unat (data_offset e) + unat (entry_length e) < 2 ^ 32"
    and "sum_list cs = unat (entry_length e)"
  shows "read_chunks sb e 0 cs = map_sum id snd (tar_read sb e 0 (entry_length e))"
proof -
  have "read_chunks sb e 0 cs = read_bytes sb (unat (data_offset e)) (unat (entry_length e))"
    using read_chunks_eq[OF assms(1), of 0 cs sb] assms(2) by simp
  moreover have "tar_read sb e 0 (entry_length e) =
      (case read_bytes sb (unat (data_offset e)) (unat (entry_length e)) of
         Inl f \<Rightarrow> Inl f | Inr r \<Rightarrow> Inr (entry_length e, r))"
    using tar_read_within[OF assms(1), of 0 "entry_length e" sb] by simp
  ultimately show ?thesis by (simp split: sum.splits)
qed

lemma chunked_reads_on_sample:
  "unat (data_offset entry_file_b) + unat (entry_length entry_file_b) < 2 ^ 32 \<and>
   sum_list [2, 3] = unat (entry_length entry_file_b) \<and>
   tar_read sample_sb entry_file_b 0 5 = Inr (5, ''hello'') \<and>
   read_chunks sample_sb entry_file_b 0 [2, 3] = Inr ''hello''"
proof -
  have "tarfs_read sample_sb 5 1024 = Inr (5, take 5 (drop 0 (sample_blocks ! 2)))"
    using sample_read[of 2 0 5] by simp
  then have rd: "tar_read sample_sb entry_file_b 0 5 = Inr (5, ''hello'')"
    by (simp add: tar_read_def entry_file_b_def sample_blocks_def pad_def)
  have pre: "unat (data_offset entry_file_b) + unat (entry_length entry_file_b) < 2 ^ 32"
    "sum_list [2, 3] = unat (entry_length entry_file_b)"
    by (simp_all add: entry_file_b_def)
  have el: "entry_length entry_file_b = 5" by (simp add: entry_file_b_def)
  from chunked_reads_equal_single_read[OF pre, of sample_sb] rd pre show ?thesis
    by (simp add: el)
qed

text \<open>
  C7.  The claim asks that reading a payload in pieces gives the bytes of the one read of
  the whole payload.  \<^verbatim>\<open>tar_read\<close> adds the offset to \<open>data_offset\<close> in 32 bits before it
  hands the sum to \<^verbatim>\<open>tarfs_read\<close>, which counts in 64 bits.  For a payload that starts
  512 bytes below \<open>2^32\<close> and is 514 bytes long, the one read crosses the mark and
  returns the bytes behind it, while the piece at offset 512 wraps and is read from the
  start of the device.
\<close>

theorem chunked_reads_differ_across_4GiB:
  "sum_list [512, 2] = unat (entry_length high_entry) \<and>
   tar_read ab_sb high_entry 0 514
     = Inr (514, replicate 512 (CHR ''B'') @ replicate 2 (CHR ''B'')) \<and>
   tar_read ab_sb high_entry 0 512 = Inr (512, replicate 512 (CHR ''B'')) \<and>
   tar_read ab_sb high_entry 512 2 = Inr (2, replicate 2 (CHR ''A'')) \<and>
   read_chunks ab_sb high_entry 0 [512, 2]
     \<noteq> map_sum id snd (tar_read ab_sb high_entry 0 (entry_length high_entry))"
proof -
  have el: "entry_length high_entry = 514" by (simp add: high_entry_def)
  have "read_chunks ab_sb high_entry 0 [512, 2] =
      Inr (replicate 512 (CHR ''B'') @ replicate 2 (CHR ''A''))"
    using ab_reads(2,3) by simp
  moreover have "replicate 2 (CHR ''A'') \<noteq> replicate 2 (CHR ''B'')"
    by (simp add: numeral_2_eq_2)
  ultimately show ?thesis
    by (simp add: el ab_reads)
qed

section \<open>Reading at and behind the end: claim C1\<close>

lemma tar_read_at_end:
  "ucast off = entry_length e \<Longrightarrow> tar_read sb e off len = Inr (0, [])"
  by (simp add: tar_read_def tarfs_read_def)

lemma tar_read_behind_end:
  assumes "unat (entry_length e) < unat off" and "unat len \<le> 2 ^ 32"
  shows "tar_read sb e off len = tarfs_read sb len (ucast (data_offset e + off))"
proof -
  let ?L = "entry_length e"
  have uo: "unat (ucast off :: u64) = unat off" by (rule unat_ucast_u32)
  have o: "unat off < 2 ^ 32" by (rule unat_u32_lt)
  have "unat (?L - ucast off) = unat ?L + 2 ^ 64 - unat off"
    using assms(1) by (simp add: unat_sub_if' uo)
  then have "unat len \<le> unat (?L - ucast off)"
    using assms(2) o by simp
  then have "len \<le> ?L - ucast off" by (simp add: word_le_nat_alt)
  then show ?thesis by (simp add: tar_read_def min_def)
qed

text \<open>
  C1.  The claim asks for a read of 0 bytes at every offset at or behind the end of the
  payload.  At the end the code does so (\<open>tar_read_at_end\<close>).  Behind the end the
  unsigned difference \<open>length - off\<close> wraps, the clamp no longer bites
  (\<open>tar_read_behind_end\<close>), and the read returns what lies behind the payload: on the
  sample archive, reading the 5-byte file at offset 512 returns the first seven bytes of
  the header that follows it.
\<close>

theorem tar_read_past_end:
  "entry_length entry_file_b = 5 \<and>
   tar_read sample_sb entry_file_b 512 7 = Inr (7, ''a/b.txt'')"
proof -
  have "tarfs_read sample_sb 7 1536 = Inr (7, take 7 (drop 0 (sample_blocks ! 3)))"
    using sample_read[of 3 0 7] by simp
  moreover have "take 7 (drop 0 (sample_blocks ! 3)) = ''a/b.txt''"
    by (simp add: sample_blocks_def pad_def hdr_file_b2_def mk_header_def)
  ultimately show ?thesis
    by (simp add: tar_read_def entry_file_b_def)
qed


end
